theory Spec2Isabelle
  imports Main "HOL-Library.Word" "HOL-Library.Multiset" "HOL-Library.Sublist"
begin

unbundle bit_operations_syntax

section \<open>PixelLock: data model\<close>

text \<open>
  The program is a single Go file, \<^verbatim>\<open>main.go\<close>. Go's \<^verbatim>\<open>byte\<close>/\<^verbatim>\<open>uint8\<close> is an 8-bit
  word and \<^verbatim>\<open>uint32\<close> a 32-bit word; a Go \<^verbatim>\<open>string\<close> and a \<^verbatim>\<open>[]byte\<close> are both
  sequences of bytes, so both are byte lists here.
\<close>

type_synonym byte = "8 word"
type_synonym uint32 = "32 word"

text \<open>The constants of \<^verbatim>\<open>main.go\<close>.\<close>

definition KeySize :: nat where
  "KeySize = 32"

definition StegoMessageLimit :: nat where
  "StegoMessageLimit = 1000"

definition EncryptedExtension :: string where
  "EncryptedExtension = ''.enc''"

text \<open>
  Errors are values. \<^verbatim>\<open>ErrOS\<close> is an error of the operating system or of a library
  (with its message); \<^verbatim>\<open>SkipDir\<close> and \<^verbatim>\<open>SkipAll\<close> are the two sentinel errors of
  \<^verbatim>\<open>path/filepath\<close>; \<^verbatim>\<open>KeySizeError\<close> is the error of \<^verbatim>\<open>crypto/aes\<close>, \<^verbatim>\<open>ErrEOF\<close> and
  \<^verbatim>\<open>ErrUnexpectedEOF\<close> are \<^verbatim>\<open>io.EOF\<close> and \<^verbatim>\<open>io.ErrUnexpectedEOF\<close>, and \<^verbatim>\<open>ErrOpen\<close> is
  the error of \<^verbatim>\<open>crypto/cipher\<close>. Every
  \<^verbatim>\<open>fmt.Errorf("...: %w", err)\<close> of \<^verbatim>\<open>main.go\<close> is a constructor that wraps the
  underlying error, named after its message. \<^verbatim>\<open>NilPointerDereference\<close> and
  \<^verbatim>\<open>IndexOutOfRange\<close> stand for run-time panics.
\<close>

datatype error =
    ErrOS string
  | SkipDir
  | SkipAll
  | KeySizeError
  | ErrEOF
  | ErrUnexpectedEOF
  | ErrOpen
  | FailedToCreateCipher error
  | FailedToCreateGCM error
  | FailedToCreateNonce error
  | CiphertextTooShort
  | FailedToOpenGCM error
  | FailedToOpenImage error
  | FailedToDecodeImage error
  | FailedToCreateImageFile error
  | FailedToEncodeJPEG error
  | FailedToEncodePNG error
  | FailedToEncodeImageToBytes error
  | FailedToDecodeBytesToImage error
  | MessageTooLong
  | NilPointerDereference
  | IndexOutOfRange

section \<open>Steganography\<close>

subsection \<open>Pixels and images\<close>

text \<open>
  \<^verbatim>\<open>color.RGBA\<close> has four 8-bit fields R, G, B, A. An \<^verbatim>\<open>*image.RGBA\<close> made by
  \<^verbatim>\<open>image.NewRGBA(image.Rect(0, 0, w, h))\<close> holds its pixels row by row; the pixel
  at \<^verbatim>\<open>(x, y)\<close> is the one at offset \<^verbatim>\<open>y * w + x\<close>. \<^verbatim>\<open>RGBAAt\<close> returns the zero colour
  outside the rectangle and \<^verbatim>\<open>SetRGBA\<close> does nothing there.
\<close>

record RGBA =
  cR :: byte
  cG :: byte
  cB :: byte
  cA :: byte

record Image =
  Pix :: "RGBA list"
  Dx :: nat
  Dy :: nat

definition wf_image :: "Image \<Rightarrow> bool" where
  "wf_image img \<longleftrightarrow> length (Pix img) = Dx img * Dy img"

definition PixOffset :: "Image \<Rightarrow> nat \<Rightarrow> nat \<Rightarrow> nat" where
  "PixOffset img x y = y * Dx img + x"

definition RGBAAt :: "Image \<Rightarrow> nat \<Rightarrow> nat \<Rightarrow> RGBA" where
  "RGBAAt img x y =
     (if x < Dx img \<and> y < Dy img then Pix img ! PixOffset img x y
      else \<lparr>cR = 0, cG = 0, cB = 0, cA = 0\<rparr>)"

definition SetRGBA :: "Image \<Rightarrow> nat \<Rightarrow> nat \<Rightarrow> RGBA \<Rightarrow> Image" where
  "SetRGBA img x y c =
     (if x < Dx img \<and> y < Dy img then img\<lparr>Pix := (Pix img)[PixOffset img x y := c]\<rparr>
      else img)"

text \<open>
  \<^verbatim>\<open>color.RGBA.RGBA()\<close> widens each channel to 16 bits inside a \<^verbatim>\<open>uint32\<close>:
  \<^verbatim>\<open>r = uint32(c.R); r |= r << 8\<close>.
\<close>

definition widen16 :: "byte \<Rightarrow> uint32" where
  "widen16 v = (let r = (ucast v :: uint32) in r OR push_bit 8 r)"

definition RGBA_values :: "RGBA \<Rightarrow> uint32 \<times> uint32 \<times> uint32 \<times> uint32" where
  "RGBA_values c = (widen16 (cR c), widen16 (cG c), widen16 (cB c), widen16 (cA c))"

subsection \<open>Files and directories\<close>

text \<open>
  What \<^verbatim>\<open>os.Lstat\<close> and the listing of directories find under a path: a file that is
  not a directory, a directory with its entries in the order of the sorted listing, a
  directory whose listing fails, or a name whose \<^verbatim>\<open>Lstat\<close> fails.
\<close>

datatype node =
    File string
  | Dir string "node list"
  | DirUnreadable string
  | Missing string

fun node_name :: "node \<Rightarrow> string" where
  "node_name (File n) = n"
| "node_name (Dir n kids) = n"
| "node_name (DirUnreadable n) = n"
| "node_name (Missing n) = n"

fun node_is_dir :: "node \<Rightarrow> bool" where
  "node_is_dir (File n) = False"
| "node_is_dir (Dir n kids) = True"
| "node_is_dir (DirUnreadable n) = True"
| "node_is_dir (Missing n) = False"

fun node_is_missing :: "node \<Rightarrow> bool" where
  "node_is_missing (Missing n) = True"
| "node_is_missing k = False"

record FileInfo =
  Name :: string
  IsDir :: bool

subsection \<open>The environment\<close>

text \<open>
  Everything the program asks of the operating system and of Go's libraries is a field
  of the environment: each field is the answer the call gives. One environment
  is the file system as one call of a function finds it: what the function writes is
  part of its result and is not read back through the environment. The goroutines of
  a directory run share the file system, and each may find another environment. The
  model's \<^verbatim>\<open>Image\<close> is the RGBA form of a decoded image, so the
  copy that \<^verbatim>\<open>hideMessage\<close> and \<^verbatim>\<open>revealMessage\<close> make with \<^verbatim>\<open>image.NewRGBA\<close> and
  \<^verbatim>\<open>draw.Draw\<close> is the image itself. \<^verbatim>\<open>rand_Reader\<close> gives the bytes that
  \<^verbatim>\<open>crypto/rand\<close> delivers to the call that works on the named file, and
  \<^verbatim>\<open>lstat_tree\<close> the files and directories found at a path.
\<close>

record env =
  os_Stat :: "string \<Rightarrow> bool"
  os_Open :: "string \<Rightarrow> error + byte list"
  os_Create :: "string \<Rightarrow> error option"
  os_MkdirAll :: "string \<Rightarrow> error option"
  ioutil_ReadFile :: "string \<Rightarrow> error + byte list"
  ioutil_WriteFile :: "string \<Rightarrow> byte list \<Rightarrow> error option"
  image_Decode :: "byte list \<Rightarrow> error + Image"
  image_DecodeConfig :: "byte list \<Rightarrow> error + string"
  png_Encode :: "Image \<Rightarrow> error + byte list"
  png_Decode :: "byte list \<Rightarrow> error + Image"
  jpeg_Encode :: "Image \<Rightarrow> error + byte list"
  filepath_Join :: "string \<Rightarrow> string \<Rightarrow> string"
  filepath_Rel :: "string \<Rightarrow> string \<Rightarrow> error + string"
  filepath_Dir :: "string \<Rightarrow> string"
  rand_Reader :: "string \<Rightarrow> byte list"
  lstat_tree :: "string \<Rightarrow> node"

text \<open>\<^verbatim>\<open>strings.ToLower\<close> on ASCII, which is what format names are written in.\<close>

definition ToLower_char :: "char \<Rightarrow> char" where
  "ToLower_char c =
     (let n = (of_char c :: nat) in if 65 \<le> n \<and> n \<le> 90 then char_of (n + 32) else c)"

definition ToLower :: "string \<Rightarrow> string" where
  "ToLower s = map ToLower_char s"

text \<open>\<^verbatim>\<open>LoadImage\<close>: \<^verbatim>\<open>os.Open\<close>, then \<^verbatim>\<open>image.Decode\<close>.\<close>

definition LoadImage :: "env \<Rightarrow> string \<Rightarrow> error + Image" where
  "LoadImage E filename =
     (case os_Open E filename of
        Inl err \<Rightarrow> Inl (FailedToOpenImage err)
      | Inr f \<Rightarrow>
          (case image_Decode E f of
             Inl err \<Rightarrow> Inl (FailedToDecodeImage err)
           | Inr img \<Rightarrow> Inr img))"

text \<open>
  \<^verbatim>\<open>SaveImage\<close>: \<^verbatim>\<open>os.Create\<close>, then the JPEG encoder for the formats \<^verbatim>\<open>jpg\<close> and
  \<^verbatim>\<open>jpeg\<close> and the PNG encoder for every other format. On success the model returns
  the bytes written to the file.
\<close>

definition SaveImage :: "env \<Rightarrow> string \<Rightarrow> Image \<Rightarrow> string \<Rightarrow> error + byte list" where
  "SaveImage E filename img outputFormat =
     (case os_Create E filename of
        Some err \<Rightarrow> Inl (FailedToCreateImageFile err)
      | None \<Rightarrow>
          if ToLower outputFormat = ''jpg'' \<or> ToLower outputFormat = ''jpeg''
          then (case jpeg_Encode E img of
                  Inl err \<Rightarrow> Inl (FailedToEncodeJPEG err)
                | Inr bs \<Rightarrow> Inr bs)
          else (case png_Encode E img of
                  Inl err \<Rightarrow> Inl (FailedToEncodePNG err)
                | Inr bs \<Rightarrow> Inr bs))"

definition ImageToBytes :: "env \<Rightarrow> Image \<Rightarrow> error + byte list" where
  "ImageToBytes E img =
     (case png_Encode E img of
        Inl err \<Rightarrow> Inl (FailedToEncodeImageToBytes err)
      | Inr bs \<Rightarrow> Inr bs)"

definition BytesToImage :: "env \<Rightarrow> byte list \<Rightarrow> error + Image" where
  "BytesToImage E data =
     (case png_Decode E data of
        Inl err \<Rightarrow> Inl (FailedToDecodeBytesToImage err)
      | Inr img \<Rightarrow> Inr img)"

text \<open>
  \<^verbatim>\<open>isImageFile\<close>: the file opens, its header decodes, and the format is one of the
  supported ones.
\<close>

definition supportedFormats :: "string list" where
  "supportedFormats = [''jpeg'', ''jpg'', ''png'', ''gif'', ''bmp'', ''tiff'']"

definition isImageFile :: "env \<Rightarrow> string \<Rightarrow> bool" where
  "isImageFile E filename =
     (case os_Open E filename of
        Inl err \<Rightarrow> False
      | Inr f \<Rightarrow>
          (case image_DecodeConfig E f of
             Inl err \<Rightarrow> False
           | Inr format \<Rightarrow> ToLower format \<in> set supportedFormats))"

subsection \<open>hideMessage\<close>

text \<open>
  The body of the inner loop of \<^verbatim>\<open>hideMessage\<close> for one pixel and one message byte:
  \<^verbatim>\<open>
  r, g, b, a := rgbaImg.At(x, y).RGBA()
  r = (r &^ 1) | uint32(message[messageIndex]>>7)
  g = (g &^ 1) | uint32((message[messageIndex]>>6)&1)
  b = (b &^ 1) | uint32((message[messageIndex]>>5)&1)
  a = (a &^ 1) | uint32((message[messageIndex]>>4)&1)
  rgbaImg.SetRGBA(x, y, color.RGBA{uint8(r), uint8(g), uint8(b), uint8(a)})
  \<close>
\<close>

definition hide_pixel :: "RGBA \<Rightarrow> byte \<Rightarrow> RGBA" where
  "hide_pixel c m =
     (case RGBA_values c of (r, g, b, a) \<Rightarrow>
        let r' = (r AND NOT 1) OR (ucast (drop_bit 7 m) :: uint32);
            g' = (g AND NOT 1) OR (ucast (drop_bit 6 m AND 1) :: uint32);
            b' = (b AND NOT 1) OR (ucast (drop_bit 5 m AND 1) :: uint32);
            a' = (a AND NOT 1) OR (ucast (drop_bit 4 m AND 1) :: uint32)
        in \<lparr>cR = ucast r', cG = ucast g', cB = ucast b', cA = ucast a'\<rparr>)"

text \<open>
  The loop state is the image and \<^verbatim>\<open>messageIndex\<close>. The guard
  \<^verbatim>\<open>messageIndex < len(message)\<close> is the only test: the loops run over every pixel,
  and nothing compares the message length with the number of pixels.
\<close>

definition hide_body :: "byte list \<Rightarrow> nat \<Rightarrow> nat \<Rightarrow> Image \<times> nat \<Rightarrow> Image \<times> nat" where
  "hide_body message y x = (\<lambda>(img, messageIndex).
     if messageIndex < length message
     then (SetRGBA img x y (hide_pixel (RGBAAt img x y) (message ! messageIndex)),
           messageIndex + 1)
     else (img, messageIndex))"

definition hide_loops :: "byte list \<Rightarrow> nat \<Rightarrow> nat \<Rightarrow> Image \<times> nat \<Rightarrow> Image \<times> nat" where
  "hide_loops message width height =
     fold (\<lambda>y. fold (\<lambda>x. hide_body message y x) [0..<width]) [0..<height]"

text \<open>
  The pixel-buffer part of \<^verbatim>\<open>hideMessage\<close>: from the RGBA copy of the loaded image to
  the image handed to \<^verbatim>\<open>SaveImage\<close>. The message gets its NUL terminator first.
\<close>

definition hide :: "Image \<Rightarrow> byte list \<Rightarrow> Image" where
  "hide rgbaImg message =
     (let width = Dx rgbaImg; height = Dy rgbaImg; message' = message @ [0]
      in fst (hide_loops message' width height (rgbaImg, 0)))"

text \<open>
  \<^verbatim>\<open>hideMessage\<close>. The Go function returns only an error; the model returns, on
  success, the image that was handed to \<^verbatim>\<open>SaveImage\<close>. No error of this function
  is about the size of the image.
\<close>

definition hideMessage :: "env \<Rightarrow> string \<Rightarrow> string \<Rightarrow> byte list \<Rightarrow> string \<Rightarrow> error + Image" where
  "hideMessage E inputFilename outputFilename message outputFormat =
     (case LoadImage E inputFilename of
        Inl err \<Rightarrow> Inl err
      | Inr img \<Rightarrow>
          let rgbaImg = hide img message in
          (case os_MkdirAll E (filepath_Dir E outputFilename) of
             Some err \<Rightarrow> Inl err
           | None \<Rightarrow>
               (case SaveImage E outputFilename rgbaImg outputFormat of
                  Inl err \<Rightarrow> Inl err
                | Inr bs \<Rightarrow> Inr rgbaImg)))"

text \<open>The action of the \<^verbatim>\<open>stego hide\<close> command: the length cap, then \<^verbatim>\<open>hideMessage\<close>.\<close>

definition stegoHideAction :: "env \<Rightarrow> string \<Rightarrow> string \<Rightarrow> byte list \<Rightarrow> string \<Rightarrow> error + Image" where
  "stegoHideAction E inputPath outputPath message outputFormat =
     (if length message > StegoMessageLimit then Inl MessageTooLong
      else hideMessage E inputPath outputPath message outputFormat)"

subsection \<open>revealMessage\<close>

text \<open>
  One byte per pixel:
  \<^verbatim>\<open>uint8(((r & 1) << 7) | ((g & 1) << 6) | ((b & 1) << 5) | ((a & 1) << 4))\<close>
  on the widened channel values.
\<close>

definition reveal_byte :: "RGBA \<Rightarrow> byte" where
  "reveal_byte c =
     (case RGBA_values c of (r, g, b, a) \<Rightarrow>
        ucast (push_bit 7 (r AND 1) OR push_bit 6 (g AND 1)
               OR push_bit 5 (b AND 1) OR push_bit 4 (a AND 1)))"

definition reveal_loops :: "Image \<Rightarrow> nat \<Rightarrow> nat \<Rightarrow> byte list \<Rightarrow> byte list" where
  "reveal_loops img width height =
     fold (\<lambda>y. fold (\<lambda>x messageBits. messageBits @ [reveal_byte (RGBAAt img x y)]) [0..<width])
          [0..<height]"

text \<open>
  \<^verbatim>\<open>strings.Split(s, sep)\<close> for a separator of one byte: the pieces of \<^verbatim>\<open>s\<close> between
  the separators, in order; \<^verbatim>\<open>cur\<close> is the piece being read.
\<close>

fun Split_from :: "byte list \<Rightarrow> byte \<Rightarrow> byte list \<Rightarrow> byte list list" where
  "Split_from cur sep [] = [cur]"
| "Split_from cur sep (c # cs) =
     (if c = sep then cur # Split_from [] sep cs else Split_from (cur @ [c]) sep cs)"

definition Split :: "byte list \<Rightarrow> byte \<Rightarrow> byte list list" where
  "Split s sep = Split_from [] sep s"

text \<open>
  The pixel-buffer part of \<^verbatim>\<open>revealMessage\<close>; \<^verbatim>\<open>strings.Split(message, "\x00")[0]\<close>
  is an index expression, which panics on an empty slice.
\<close>

definition reveal :: "Image \<Rightarrow> error + byte list" where
  "reveal rgbaImg =
     (let width = Dx rgbaImg; height = Dy rgbaImg;
          messageBits = reveal_loops rgbaImg width height []
      in case Split messageBits 0 of [] \<Rightarrow> Inl IndexOutOfRange | m # _ \<Rightarrow> Inr m)"

definition revealMessage :: "env \<Rightarrow> string \<Rightarrow> error + byte list" where
  "revealMessage E inputFilename =
     (case LoadImage E inputFilename of Inl err \<Rightarrow> Inl err | Inr img \<Rightarrow> reveal img)"


subsection \<open>Auxiliary definitions for the proofs about steganography\<close>

text \<open>
  The loop body of \<^verbatim>\<open>hideMessage\<close> on the row-major offset \<^verbatim>\<open>i\<close> of a pixel that
  lies inside the image, and the invariant of the loops: the dimensions never change.
\<close>

definition hide_at :: "byte list \<Rightarrow> nat \<Rightarrow> Image \<times> nat \<Rightarrow> Image \<times> nat" where
  "hide_at message i = (\<lambda>(img, messageIndex).
     if messageIndex < length message
     then (img\<lparr>Pix := (Pix img)[i := hide_pixel (Pix img ! i) (message ! messageIndex)]\<rparr>,
           messageIndex + 1)
     else (img, messageIndex))"

definition dims :: "nat \<Rightarrow> nat \<Rightarrow> Image \<times> nat \<Rightarrow> bool" where
  "dims w h t \<longleftrightarrow> Dx (fst t) = w \<and> Dy (fst t) = h \<and> length (Pix (fst t)) = w * h"

text \<open>The pixels after the first \<^verbatim>\<open>n\<close> of them have been visited by the loops.\<close>

definition hidden_prefix :: "byte list \<Rightarrow> nat \<Rightarrow> RGBA list \<Rightarrow> RGBA list" where
  "hidden_prefix message n pix =
     map (\<lambda>i. if i < n \<and> i < length message then hide_pixel (pix ! i) (message ! i) else pix ! i)
         [0..<length pix]"

text \<open>
  The byte of one pixel in the words of the specification,
  \<^verbatim>\<open>(R_lsb<<7)|(G_lsb<<6)|(B_lsb<<5)|(A_lsb<<4)\<close>, on the 8-bit channels.
\<close>

definition spec_reveal_byte :: "RGBA \<Rightarrow> byte" where
  "spec_reveal_byte c =
     push_bit 7 (cR c AND 1) OR push_bit 6 (cG c AND 1)
     OR push_bit 5 (cB c AND 1) OR push_bit 4 (cA c AND 1)"

text \<open>Small opaque white images, used as concrete inputs.\<close>

definition white :: RGBA where
  "white = \<lparr>cR = 255, cG = 255, cB = 255, cA = 255\<rparr>"

definition img_1x1 :: Image where
  "img_1x1 = \<lparr>Pix = [white], Dx = 1, Dy = 1\<rparr>"

definition img_2x1 :: Image where
  "img_2x1 = \<lparr>Pix = [white, white], Dx = 2, Dy = 1\<rparr>"

definition img_3x1 :: Image where
  "img_3x1 = \<lparr>Pix = [white, white, white], Dx = 3, Dy = 1\<rparr>"


section \<open>Encryption\<close>

subsection \<open>The AEAD of the standard library\<close>

text \<open>
  \<^verbatim>\<open>crypto/aes\<close> and \<^verbatim>\<open>crypto/cipher\<close> are Go's libraries, not code of this program.
  An AEAD is the interface \<^verbatim>\<open>cipher.AEAD\<close>: \<^verbatim>\<open>Seal\<close> gives the ciphertext with the
  authentication tag appended, for a nonce, a plaintext and additional data; \<^verbatim>\<open>Open\<close>
  gives the plaintext or \<^verbatim>\<open>ErrOpen\<close>. Both Go methods append their result to a first
  argument \<^verbatim>\<open>dst\<close>; the model's \<^verbatim>\<open>Seal\<close> and \<^verbatim>\<open>Open\<close> return the result alone, and
  the callers below do the appending.
\<close>

record AEAD =
  NonceSize :: nat
  Overhead :: nat
  Seal :: "byte list \<Rightarrow> byte list \<Rightarrow> byte list \<Rightarrow> byte list"
  Open :: "byte list \<Rightarrow> byte list \<Rightarrow> byte list \<Rightarrow> error + byte list"

text \<open>
  \<^verbatim>\<open>aes.NewCipher\<close> accepts keys of 16, 24 or 32 bytes; the block cipher is
  represented by its key. \<^verbatim>\<open>cipher.NewGCM\<close> accepts every cipher with 128-bit blocks,
  which AES is; the parameter \<^verbatim>\<open>gcm\<close> of the functions below is the AEAD it builds
  for a key. \<^verbatim>\<open>io.ReadFull\<close> fills a buffer of \<^verbatim>\<open>n\<close> bytes from the bytes a reader
  delivers before it ends; when they are too few it fails, with \<^verbatim>\<open>io.EOF\<close> if no byte
  was read and with \<^verbatim>\<open>io.ErrUnexpectedEOF\<close> otherwise.
\<close>

definition aes_NewCipher :: "byte list \<Rightarrow> error + byte list" where
  "aes_NewCipher key =
     (if length key = 16 \<or> length key = 24 \<or> length key = 32 then Inr key
      else Inl KeySizeError)"

definition cipher_NewGCM :: "(byte list \<Rightarrow> AEAD) \<Rightarrow> byte list \<Rightarrow> error + AEAD" where
  "cipher_NewGCM gcm block = Inr (gcm block)"

definition io_ReadFull :: "byte list \<Rightarrow> nat \<Rightarrow> error + byte list" where
  "io_ReadFull delivered n =
     (if n \<le> length delivered then Inr (take n delivered)
      else if delivered = [] then Inl ErrEOF
      else Inl ErrUnexpectedEOF)"

text \<open>
  What the documentation of the library promises of AES-GCM, as predicates on an AEAD:
  the standard nonce and tag sizes; \<^verbatim>\<open>Seal\<close> adds \<^verbatim>\<open>Overhead\<close> bytes; \<^verbatim>\<open>Open\<close> inverts
  \<^verbatim>\<open>Seal\<close> under the same nonce and additional data; \<^verbatim>\<open>Open\<close> rejects an input
  shorter than the tag.
\<close>

definition gcm_standard_sizes :: "AEAD \<Rightarrow> bool" where
  "gcm_standard_sizes g \<longleftrightarrow> NonceSize g = 12 \<and> Overhead g = 16"

definition seal_adds_overhead :: "AEAD \<Rightarrow> bool" where
  "seal_adds_overhead g \<longleftrightarrow>
     (\<forall>nonce plaintext ad. length (Seal g nonce plaintext ad) = length plaintext + Overhead g)"

definition open_inverts_seal :: "AEAD \<Rightarrow> bool" where
  "open_inverts_seal g \<longleftrightarrow>
     (\<forall>nonce plaintext ad. length nonce = NonceSize g \<longrightarrow>
        Open g nonce (Seal g nonce plaintext ad) ad = Inr plaintext)"

definition open_needs_tag :: "AEAD \<Rightarrow> bool" where
  "open_needs_tag g \<longleftrightarrow>
     (\<forall>nonce ciphertext ad. length ciphertext < Overhead g \<longrightarrow>
        Open g nonce ciphertext ad = Inl ErrOpen)"

subsection \<open>Encrypt and Decrypt\<close>

text \<open>
  \<^verbatim>\<open>Encrypt\<close>; \<^verbatim>\<open>delivered\<close> is what \<^verbatim>\<open>rand.Reader\<close> delivers to this call. The call
  \<^verbatim>\<open>aesGCM.Seal(nonce, nonce, plaintext, nil)\<close> appends to \<^verbatim>\<open>dst = nonce\<close>.
\<close>

definition Encrypt :: "(byte list \<Rightarrow> AEAD) \<Rightarrow> byte list \<Rightarrow> byte list \<Rightarrow> byte list \<Rightarrow> error + byte list" where
  "Encrypt gcm delivered key plaintext =
     (case aes_NewCipher key of
        Inl err \<Rightarrow> Inl (FailedToCreateCipher err)
      | Inr block \<Rightarrow>
          (case cipher_NewGCM gcm block of
             Inl err \<Rightarrow> Inl (FailedToCreateGCM err)
           | Inr aesGCM \<Rightarrow>
               (case io_ReadFull delivered (NonceSize aesGCM) of
                  Inl err \<Rightarrow> Inl (FailedToCreateNonce err)
                | Inr nonce \<Rightarrow> Inr (nonce @ Seal aesGCM nonce plaintext []))))"

text \<open>
  \<^verbatim>\<open>Decrypt\<close>: the length test comes before the split
  \<^verbatim>\<open>ciphertext[:nonceSize], ciphertext[nonceSize:]\<close>, and \<^verbatim>\<open>Open\<close> after it.
\<close>

definition Decrypt :: "(byte list \<Rightarrow> AEAD) \<Rightarrow> byte list \<Rightarrow> byte list \<Rightarrow> error + byte list" where
  "Decrypt gcm key ciphertext =
     (case aes_NewCipher key of
        Inl err \<Rightarrow> Inl (FailedToCreateCipher err)
      | Inr block \<Rightarrow>
          (case cipher_NewGCM gcm block of
             Inl err \<Rightarrow> Inl (FailedToCreateGCM err)
           | Inr aesGCM \<Rightarrow>
               let nonceSize = NonceSize aesGCM in
               if length ciphertext < nonceSize then Inl CiphertextTooShort
               else
                 let nonce = take nonceSize ciphertext;
                     ciphertext' = drop nonceSize ciphertext
                 in (case Open aesGCM nonce ciphertext' [] of
                       Inl err \<Rightarrow> Inl (FailedToOpenGCM err)
                     | Inr plaintext \<Rightarrow> Inr plaintext)))"

subsection \<open>A small AEAD for concrete inputs\<close>

text \<open>
  This is not AES-GCM. It is a stand-in with the same interface and sizes: the
  plaintext is masked with one byte derived from key and nonce, and the tag is sixteen
  copies of a checksum. It shows that the four predicates above can hold together, and
  gives the theorems about \<^verbatim>\<open>Encrypt\<close> and \<^verbatim>\<open>Decrypt\<close> a concrete instance.
\<close>

definition toy_pad :: "byte list \<Rightarrow> byte list \<Rightarrow> byte" where
  "toy_pad key nonce = fold (+) (key @ nonce) 0x5A"

definition toy_tag :: "byte list \<Rightarrow> byte list \<Rightarrow> byte list \<Rightarrow> byte list \<Rightarrow> byte list" where
  "toy_tag key nonce plaintext ad = replicate 16 (fold (+) (plaintext @ ad) (toy_pad key nonce))"

definition toy_gcm :: "byte list \<Rightarrow> AEAD" where
  "toy_gcm key =
     \<lparr>NonceSize = 12,
      Overhead = 16,
      Seal = (\<lambda>nonce plaintext ad.
        map (\<lambda>b. b XOR toy_pad key nonce) plaintext @ toy_tag key nonce plaintext ad),
      Open = (\<lambda>nonce ciphertext ad.
        if length ciphertext < 16 then Inl ErrOpen
        else
          let n = length ciphertext - 16;
              plaintext = map (\<lambda>b. b XOR toy_pad key nonce) (take n ciphertext)
          in if drop n ciphertext = toy_tag key nonce plaintext ad then Inr plaintext
             else Inl ErrOpen)\<rparr>"

definition zero_key :: "byte list" where
  "zero_key = replicate 32 0"

definition zero_nonce :: "byte list" where
  "zero_nonce = replicate 12 0"

section \<open>Directories\<close>

subsection \<open>filepath.Walk\<close>

text \<open>
  \<^verbatim>\<open>filepath.Walk\<close> is Go's library. The callback gets the path, the \<^verbatim>\<open>FileInfo\<close>
  (\<^verbatim>\<open>nil\<close> when \<^verbatim>\<open>Lstat\<close> failed) and an error, and returns an error or \<^verbatim>\<open>nil\<close>; since
  the callbacks of this program have effects, the model threads a state through them.
  A directory is reported once, with the error of its listing if that failed, and is
  entered only when both the listing and the callback succeeded. \<^verbatim>\<open>SkipDir\<close> from a
  directory, or from an entry whose \<^verbatim>\<open>Lstat\<close> failed, skips that entry; every other
  error ends the walk. \<^verbatim>\<open>Walk\<close> itself turns \<^verbatim>\<open>SkipDir\<close> and \<^verbatim>\<open>SkipAll\<close> into \<^verbatim>\<open>nil\<close>.
\<close>

type_synonym 'st WalkFunc = "string \<Rightarrow> FileInfo option \<Rightarrow> error option \<Rightarrow> 'st \<Rightarrow> error option \<times> 'st"

fun walk :: "(string \<Rightarrow> string \<Rightarrow> string) \<Rightarrow> 'st WalkFunc \<Rightarrow> string \<Rightarrow> node \<Rightarrow> 'st \<Rightarrow> error option \<times> 'st"
  and walk_names :: "(string \<Rightarrow> string \<Rightarrow> string) \<Rightarrow> 'st WalkFunc \<Rightarrow> string \<Rightarrow> node list \<Rightarrow> 'st \<Rightarrow> error option \<times> 'st"
where
  "walk join walkFn path (File n) st =
     walkFn path (Some \<lparr>Name = n, IsDir = False\<rparr>) None st"
| "walk join walkFn path (Missing n) st =
     walkFn path None (Some (ErrOS ''lstat'')) st"
| "walk join walkFn path (DirUnreadable n) st =
     walkFn path (Some \<lparr>Name = n, IsDir = True\<rparr>) (Some (ErrOS ''readdir'')) st"
| "walk join walkFn path (Dir n kids) st =
     (case walkFn path (Some \<lparr>Name = n, IsDir = True\<rparr>) None st of
        (Some err1, st') \<Rightarrow> (Some err1, st')
      | (None, st') \<Rightarrow> walk_names join walkFn path kids st')"
| "walk_names join walkFn path [] st = (None, st)"
| "walk_names join walkFn path (k # ks) st =
     (case walk join walkFn (join path (node_name k)) k st of
        (None, st') \<Rightarrow> walk_names join walkFn path ks st'
      | (Some err, st') \<Rightarrow>
          if err = SkipDir \<and> (node_is_dir k \<or> node_is_missing k)
          then walk_names join walkFn path ks st'
          else (Some err, st'))"

definition Walk :: "env \<Rightarrow> string \<Rightarrow> 'st WalkFunc \<Rightarrow> 'st \<Rightarrow> error option \<times> 'st" where
  "Walk E root fn st =
     (case walk (filepath_Join E) fn root (lstat_tree E root) st of
        (Some err, st') \<Rightarrow> if err = SkipDir \<or> err = SkipAll then (None, st') else (Some err, st')
      | (None, st') \<Rightarrow> (None, st'))"

subsection \<open>One file\<close>

text \<open>
  \<^verbatim>\<open>encryptFile\<close> and \<^verbatim>\<open>decryptFile\<close>. Each returns an error or \<^verbatim>\<open>nil\<close>; on success
  the model also returns what was written (nothing when the output exists and
  \<^verbatim>\<open>overwrite\<close> is off).
\<close>

definition encryptFile ::
  "env \<Rightarrow> (byte list \<Rightarrow> AEAD) \<Rightarrow> string \<Rightarrow> string \<Rightarrow> byte list \<Rightarrow> bool \<Rightarrow> error + (string \<times> byte list) option" where
  "encryptFile E gcm inputFilename outputFilename key overwrite =
     (if os_Stat E outputFilename \<and> \<not> overwrite then Inr None
      else
        case LoadImage E inputFilename of
          Inl err \<Rightarrow> Inl err
        | Inr img \<Rightarrow>
            (case ImageToBytes E img of
               Inl err \<Rightarrow> Inl err
             | Inr imgBytes \<Rightarrow>
                 (case Encrypt gcm (rand_Reader E inputFilename) key imgBytes of
                    Inl err \<Rightarrow> Inl err
                  | Inr ciphertext \<Rightarrow>
                      (case os_MkdirAll E (filepath_Dir E outputFilename) of
                         Some err \<Rightarrow> Inl err
                       | None \<Rightarrow>
                           (case ioutil_WriteFile E outputFilename ciphertext of
                              Some err \<Rightarrow> Inl err
                            | None \<Rightarrow> Inr (Some (outputFilename, ciphertext)))))))"

definition decryptFile ::
  "env \<Rightarrow> (byte list \<Rightarrow> AEAD) \<Rightarrow> string \<Rightarrow> string \<Rightarrow> byte list \<Rightarrow> bool \<Rightarrow> string
     \<Rightarrow> error + (string \<times> byte list) option" where
  "decryptFile E gcm inputFilename outputFilename key overwrite outputFormat =
     (if os_Stat E outputFilename \<and> \<not> overwrite then Inr None
      else
        case ioutil_ReadFile E inputFilename of
          Inl err \<Rightarrow> Inl err
        | Inr ciphertext \<Rightarrow>
            (case Decrypt gcm key ciphertext of
               Inl err \<Rightarrow> Inl err
             | Inr plaintext \<Rightarrow>
                 (case BytesToImage E plaintext of
                    Inl err \<Rightarrow> Inl err
                  | Inr img \<Rightarrow>
                      (case os_MkdirAll E (filepath_Dir E outputFilename) of
                         Some err \<Rightarrow> Inl err
                       | None \<Rightarrow>
                           (case SaveImage E outputFilename img outputFormat of
                              Inl err \<Rightarrow> Inl err
                            | Inr bs \<Rightarrow> Inr (Some (outputFilename, bs)))))))"

subsection \<open>The callbacks of encryptDirectory and decryptDirectory\<close>

text \<open>
  The state of a callback is the list of the goroutines it has started, each with its
  two arguments \<^verbatim>\<open>(path, outputFilename)\<close>, in the order of the calls
  \<^verbatim>\<open>wg.Add(1); go func(p, o string) {...}(path, outputFilename)\<close>. Nothing in a callback
  waits for a goroutine or counts the running ones.
\<close>

type_synonym item = "string \<times> string"

definition encryptWalkFn :: "env \<Rightarrow> string \<Rightarrow> string \<Rightarrow> bool \<Rightarrow> item list WalkFunc" where
  "encryptWalkFn E inputDir outputDir recursive path info err started =
     (case err of
        Some e \<Rightarrow> (Some e, started)
      | None \<Rightarrow>
          (case info of
             None \<Rightarrow> (Some NilPointerDereference, started)
           | Some info \<Rightarrow>
               if IsDir info \<and> path \<noteq> inputDir \<and> \<not> recursive then (Some SkipDir, started)
               else if \<not> IsDir info then
                 (if isImageFile E path then
                    (case filepath_Rel E inputDir path of
                       Inl e \<Rightarrow> (Some e, started)
                     | Inr relPath \<Rightarrow>
                         let outputFilename = filepath_Join E outputDir (relPath @ EncryptedExtension)
                         in (None, started @ [(path, outputFilename)]))
                  else (None, started))
               else (None, started)))"

text \<open>\<^verbatim>\<open>strings.TrimSuffix\<close>.\<close>

definition TrimSuffix :: "string \<Rightarrow> string \<Rightarrow> string" where
  "TrimSuffix s sfx = (if suffix sfx s then take (length s - length sfx) s else s)"

definition decryptWalkFn :: "env \<Rightarrow> string \<Rightarrow> string \<Rightarrow> bool \<Rightarrow> string \<Rightarrow> item list WalkFunc" where
  "decryptWalkFn E inputDir outputDir recursive encryptedExt path info err started =
     (case err of
        Some e \<Rightarrow> (Some e, started)
      | None \<Rightarrow>
          (case info of
             None \<Rightarrow> (Some NilPointerDereference, started)
           | Some info \<Rightarrow>
               if IsDir info \<and> path \<noteq> inputDir \<and> \<not> recursive then (Some SkipDir, started)
               else if \<not> IsDir info \<and> suffix encryptedExt (Name info) then
                 (case filepath_Rel E inputDir path of
                    Inl e \<Rightarrow> (Some e, started)
                  | Inr relPath \<Rightarrow>
                      let outputFilename = filepath_Join E outputDir (TrimSuffix relPath encryptedExt)
                      in (None, started @ [(path, outputFilename)]))
               else (None, started)))"

subsection \<open>Goroutines\<close>

text \<open>
  A run of a directory function interleaves the walk with the goroutines it has
  started. In a state, \<^verbatim>\<open>pending\<close> are the goroutines the walk will still start, in
  order; \<^verbatim>\<open>inflight\<close> are the started ones that have not returned, whose number is the
  counter of the \<^verbatim>\<open>WaitGroup\<close>; \<^verbatim>\<open>finished\<close> are the ones that have returned, each
  with what its call for the file returned; \<^verbatim>\<open>logged\<close> are the lines
  \<^verbatim>\<open>Error encrypting p: err\<close> (or \<^verbatim>\<open>decrypting\<close>) written so far. A step either starts
  the next goroutine or lets any running one return: its body calls the function for
  one file, logs the error if there is one, and calls \<^verbatim>\<open>wg.Done()\<close>. The scheduler is
  free to choose.

  The goroutines share the file system. What the call for one file finds there
  (whether its output exists at \<^verbatim>\<open>os.Stat\<close>, whether \<^verbatim>\<open>os.MkdirAll\<close> and the write
  succeed) can depend on what the other goroutines have done so far and on how their
  system calls fell between its own. So a goroutine that returns in state \<^verbatim>\<open>s\<close> has
  found one of the environments \<^verbatim>\<open>W s\<close>, any of them, and \<^verbatim>\<open>work\<close> is the call for
  one file in the environment found. Nothing is assumed of \<^verbatim>\<open>W\<close> here.
\<close>

record run_state =
  pending :: "item list"
  inflight :: "item list"
  finished :: "(item \<times> error option) list"
  logged :: "(string \<times> error) list"

definition log_line :: "item \<Rightarrow> error option \<Rightarrow> (string \<times> error) list" where
  "log_line it r = (case r of None \<Rightarrow> [] | Some err \<Rightarrow> [(fst it, err)])"

inductive step ::
  "(run_state \<Rightarrow> env set) \<Rightarrow> (env \<Rightarrow> item \<Rightarrow> error option) \<Rightarrow> run_state \<Rightarrow> run_state \<Rightarrow> bool"
  for W :: "run_state \<Rightarrow> env set" and work :: "env \<Rightarrow> item \<Rightarrow> error option"
where
  start: "pending s = it # rest \<Longrightarrow>
     step W work s (s\<lparr>pending := rest, inflight := it # inflight s\<rparr>)"
| return: "it \<in> set (inflight s) \<Longrightarrow> E' \<in> W s \<Longrightarrow>
     step W work s (s\<lparr>inflight := remove1 it (inflight s),
                      finished := (it, work E' it) # finished s,
                      logged := log_line it (work E' it) @ logged s\<rparr>)"

code_pred step .

definition initial :: "item list \<Rightarrow> run_state" where
  "initial items = \<lparr>pending = items, inflight = [], finished = [], logged = []\<rparr>"

text \<open>
  \<^verbatim>\<open>wg.Wait()\<close> comes after \<^verbatim>\<open>filepath.Walk\<close> has returned and lets the function go on
  when the counter is zero.
\<close>

definition all_returned :: "run_state \<Rightarrow> bool" where
  "all_returned s \<longleftrightarrow> pending s = [] \<and> inflight s = []"

definition error_of :: "error + 'a \<Rightarrow> error option" where
  "error_of r = (case r of Inl err \<Rightarrow> Some err | Inr v \<Rightarrow> None)"

subsection \<open>encryptDirectory and decryptDirectory\<close>

text \<open>
  The walk of each function reads the input tree of the environment \<^verbatim>\<open>E\<close> and gives
  the error of \<^verbatim>\<open>filepath.Walk\<close> and the goroutines started. The function returns
  \<^verbatim>\<open>err\<close> in state \<^verbatim>\<open>s\<close> when \<^verbatim>\<open>s\<close> is reached by some schedule, all goroutines have
  returned, and \<^verbatim>\<open>err\<close> is the error of the walk: after \<^verbatim>\<open>wg.Wait()\<close> the code returns
  that error, or \<^verbatim>\<open>nil\<close> when there is none. An output directory placed inside the
  input directory, where the walk could meet what the goroutines write, is outside
  this model.
\<close>

definition encryptDirectory_walk :: "env \<Rightarrow> string \<Rightarrow> string \<Rightarrow> bool \<Rightarrow> error option \<times> item list" where
  "encryptDirectory_walk E inputDir outputDir recursive =
     Walk E inputDir (encryptWalkFn E inputDir outputDir recursive) []"

definition encrypt_work ::
  "(byte list \<Rightarrow> AEAD) \<Rightarrow> byte list \<Rightarrow> bool \<Rightarrow> env \<Rightarrow> item \<Rightarrow> error option" where
  "encrypt_work gcm key overwrite E' =
     (\<lambda>(p, out). error_of (encryptFile E' gcm p out key overwrite))"

definition encryptDirectory_returns ::
  "(run_state \<Rightarrow> env set) \<Rightarrow> env \<Rightarrow> (byte list \<Rightarrow> AEAD) \<Rightarrow> string \<Rightarrow> string \<Rightarrow> byte list \<Rightarrow> bool \<Rightarrow> bool
     \<Rightarrow> error option \<Rightarrow> run_state \<Rightarrow> bool" where
  "encryptDirectory_returns W E gcm inputDir outputDir key recursive overwrite err s \<longleftrightarrow>
     (step W (encrypt_work gcm key overwrite))\<^sup>*\<^sup>*
        (initial (snd (encryptDirectory_walk E inputDir outputDir recursive))) s
     \<and> all_returned s
     \<and> err = fst (encryptDirectory_walk E inputDir outputDir recursive)"

definition decryptDirectory_walk ::
  "env \<Rightarrow> string \<Rightarrow> string \<Rightarrow> bool \<Rightarrow> string \<Rightarrow> error option \<times> item list" where
  "decryptDirectory_walk E inputDir outputDir recursive encryptedExt =
     Walk E inputDir (decryptWalkFn E inputDir outputDir recursive encryptedExt) []"

definition decrypt_work ::
  "(byte list \<Rightarrow> AEAD) \<Rightarrow> byte list \<Rightarrow> bool \<Rightarrow> string \<Rightarrow> env \<Rightarrow> item \<Rightarrow> error option" where
  "decrypt_work gcm key overwrite outputFormat E' =
     (\<lambda>(p, out). error_of (decryptFile E' gcm p out key overwrite outputFormat))"

definition decryptDirectory_returns ::
  "(run_state \<Rightarrow> env set) \<Rightarrow> env \<Rightarrow> (byte list \<Rightarrow> AEAD) \<Rightarrow> string \<Rightarrow> string \<Rightarrow> byte list \<Rightarrow> bool
     \<Rightarrow> string \<Rightarrow> bool \<Rightarrow> string \<Rightarrow> error option \<Rightarrow> run_state \<Rightarrow> bool" where
  "decryptDirectory_returns W E gcm inputDir outputDir key recursive encryptedExt overwrite
     outputFormat err s \<longleftrightarrow>
     (step W (decrypt_work gcm key overwrite outputFormat))\<^sup>*\<^sup>*
        (initial (snd (decryptDirectory_walk E inputDir outputDir recursive encryptedExt))) s
     \<and> all_returned s
     \<and> err = fst (decryptDirectory_walk E inputDir outputDir recursive encryptedExt)"

subsection \<open>The files of a tree, listed without walking\<close>

text \<open>
  What the specification calls the qualifying files, read off the tree itself and not
  off the walk. \<^verbatim>\<open>tree_files\<close> lists every entry of the tree that is not a directory,
  with its path and its name, directory by directory in the order of the listings;
  \<^verbatim>\<open>top_files\<close> lists only the entries of the root directory itself. Which of the two
  applies is the flag \<^verbatim>\<open>recursive\<close>. A file qualifies for encryption when
  \<^verbatim>\<open>isImageFile\<close> accepts it, and for decryption when its name ends in the encrypted
  extension; its output name is made from its path relative to the input directory.
\<close>

fun tree_files :: "(string \<Rightarrow> string \<Rightarrow> string) \<Rightarrow> string \<Rightarrow> node \<Rightarrow> (string \<times> string) list" where
  "tree_files join path (File n) = [(path, n)]"
| "tree_files join path (Dir n kids) =
     concat (map (\<lambda>k. tree_files join (join path (node_name k)) k) kids)"
| "tree_files join path (DirUnreadable n) = []"
| "tree_files join path (Missing n) = []"

fun entry_file :: "(string \<Rightarrow> string \<Rightarrow> string) \<Rightarrow> string \<Rightarrow> node \<Rightarrow> (string \<times> string) list" where
  "entry_file join path (File n) = [(join path n, n)]"
| "entry_file join path k = []"

fun top_files :: "(string \<Rightarrow> string \<Rightarrow> string) \<Rightarrow> string \<Rightarrow> node \<Rightarrow> (string \<times> string) list" where
  "top_files join path (File n) = [(path, n)]"
| "top_files join path (Dir n kids) = concat (map (entry_file join path) kids)"
| "top_files join path (DirUnreadable n) = []"
| "top_files join path (Missing n) = []"

definition listed_files :: "env \<Rightarrow> bool \<Rightarrow> string \<Rightarrow> (string \<times> string) list" where
  "listed_files E recursive inputDir =
     (if recursive then tree_files (filepath_Join E) inputDir (lstat_tree E inputDir)
      else top_files (filepath_Join E) inputDir (lstat_tree E inputDir))"

definition encrypt_item :: "env \<Rightarrow> string \<Rightarrow> string \<Rightarrow> string \<Rightarrow> string \<Rightarrow> item list" where
  "encrypt_item E inputDir outputDir path name =
     (if isImageFile E path then
        (case filepath_Rel E inputDir path of
           Inl e \<Rightarrow> []
         | Inr relPath \<Rightarrow> [(path, filepath_Join E outputDir (relPath @ EncryptedExtension))])
      else [])"

definition decrypt_item :: "env \<Rightarrow> string \<Rightarrow> string \<Rightarrow> string \<Rightarrow> string \<Rightarrow> string \<Rightarrow> item list" where
  "decrypt_item E inputDir outputDir encryptedExt path name =
     (if suffix encryptedExt name then
        (case filepath_Rel E inputDir path of
           Inl e \<Rightarrow> []
         | Inr relPath \<Rightarrow> [(path, filepath_Join E outputDir (TrimSuffix relPath encryptedExt))])
      else [])"

definition items_of :: "(string \<Rightarrow> string \<Rightarrow> item list) \<Rightarrow> (string \<times> string) list \<Rightarrow> item list" where
  "items_of sel files = concat (map (\<lambda>(path, name). sel path name) files)"

text \<open>
  The enumeration meets no error when every \<^verbatim>\<open>Lstat\<close> and every listing that the walk
  makes succeeds and \<^verbatim>\<open>filepath.Rel\<close> succeeds on the paths of the listed files, which
  all lie below the input directory. A recursive walk lists every directory of the
  tree. A walk that is not recursive still lists the directories that are entries of
  the input directory, because \<^verbatim>\<open>filepath.Walk\<close> reads a directory before it calls the
  callback that skips it, but goes no deeper. It tells the input directory from its
  subdirectories by comparing paths, so the path that \<^verbatim>\<open>filepath.Join\<close> makes for an
  entry of the input directory must differ from the path of the input directory, as
  it does for every name a listing returns.
\<close>

fun readable :: "node \<Rightarrow> bool" where
  "readable (File n) = True"
| "readable (Dir n kids) = (\<forall>k \<in> set kids. readable k)"
| "readable (DirUnreadable n) = False"
| "readable (Missing n) = False"

fun listable :: "node \<Rightarrow> bool" where
  "listable (File n) = True"
| "listable (Dir n kids) = True"
| "listable (DirUnreadable n) = False"
| "listable (Missing n) = False"

fun entries :: "node \<Rightarrow> node list" where
  "entries (Dir n kids) = kids"
| "entries k = []"

definition readable_top :: "node \<Rightarrow> bool" where
  "readable_top k \<longleftrightarrow> listable k \<and> (\<forall>e \<in> set (entries k). listable e)"

definition rel_succeeds :: "env \<Rightarrow> string \<Rightarrow> (string \<times> string) list \<Rightarrow> bool" where
  "rel_succeeds E inputDir files \<longleftrightarrow>
     (\<forall>(path, name) \<in> set files. \<not> isl (filepath_Rel E inputDir path))"

definition entries_leave_root :: "env \<Rightarrow> string \<Rightarrow> bool" where
  "entries_leave_root E inputDir \<longleftrightarrow>
     (\<forall>k \<in> set (entries (lstat_tree E inputDir)).
        filepath_Join E inputDir (node_name k) \<noteq> inputDir)"

definition enumerable :: "env \<Rightarrow> bool \<Rightarrow> string \<Rightarrow> bool" where
  "enumerable E recursive inputDir \<longleftrightarrow>
     (if recursive then readable (lstat_tree E inputDir)
      else readable_top (lstat_tree E inputDir) \<and> entries_leave_root E inputDir)
     \<and> rel_succeeds E inputDir (listed_files E recursive inputDir)"

subsection \<open>Auxiliary definitions for the proofs about directories\<close>

text \<open>The log lines of the goroutines that have returned with an error.\<close>

definition failures :: "(item \<times> error option) list \<Rightarrow> (string \<times> error) list" where
  "failures fin = concat (map (\<lambda>(it, r). log_line it r) fin)"

text \<open>
  The invariant of every run: each goroutine of the walk is pending, in flight or
  finished, and the log holds the lines of the finished ones that failed.
\<close>

definition accounted :: "item list \<Rightarrow> run_state \<Rightarrow> bool" where
  "accounted items s \<longleftrightarrow>
     mset (pending s) + mset (inflight s) + mset (map fst (finished s)) = mset items
     \<and> logged s = failures (finished s)"

text \<open>
  A callback described by the goroutines \<^verbatim>\<open>sel path name\<close> it starts for a file, on
  the files of a list; on a directory it returns \<^verbatim>\<open>SkipDir\<close> below the input
  directory when the walk is not recursive, and \<^verbatim>\<open>nil\<close> otherwise.
\<close>

definition starts_on ::
  "item list WalkFunc \<Rightarrow> (string \<Rightarrow> string \<Rightarrow> item list) \<Rightarrow> (string \<times> string) list \<Rightarrow> bool" where
  "starts_on fn sel files \<longleftrightarrow>
     (\<forall>(path, name) \<in> set files. \<forall>st.
        fn path (Some \<lparr>Name = name, IsDir = False\<rparr>) None st = (None, st @ sel path name))"

definition skips_below ::
  "item list WalkFunc \<Rightarrow> string \<Rightarrow> bool \<Rightarrow> bool" where
  "skips_below fn inputDir recursive \<longleftrightarrow>
     (\<forall>path name st.
        fn path (Some \<lparr>Name = name, IsDir = True\<rparr>) None st
        = (if path \<noteq> inputDir \<and> \<not> recursive then (Some SkipDir, st) else (None, st)))"

section \<open>Concrete inputs\<close>

text \<open>
  An environment in which every call succeeds: every file decodes to the 1 by 1 white
  image in PNG format, no output exists yet, and the input directory holds three files.
\<close>

definition three_files :: "node list" where
  "three_files = [File ''a.png'', File ''b.png'', File ''c.png'']"

definition env0 :: env where
  "env0 =
     \<lparr>os_Stat = (\<lambda>p. False),
      os_Open = (\<lambda>p. Inr []),
      os_Create = (\<lambda>p. None),
      os_MkdirAll = (\<lambda>p. None),
      ioutil_ReadFile = (\<lambda>p. Inr []),
      ioutil_WriteFile = (\<lambda>p bs. None),
      image_Decode = (\<lambda>bs. Inr img_1x1),
      image_DecodeConfig = (\<lambda>bs. Inr ''png''),
      png_Encode = (\<lambda>img. Inr []),
      png_Decode = (\<lambda>bs. Inr img_1x1),
      jpeg_Encode = (\<lambda>img. Inr []),
      filepath_Join = (\<lambda>dir name. dir @ ''/'' @ name),
      filepath_Rel = (\<lambda>base targ. Inr (drop (length base + 1) targ)),
      filepath_Dir = (\<lambda>p. ''.''),
      rand_Reader = (\<lambda>p. zero_nonce),
      lstat_tree = (\<lambda>p. Dir p three_files)\<rparr>"

text \<open>The same environment with a disk that refuses to write the second file.\<close>

definition env1 :: env where
  "env1 = env0\<lparr>ioutil_WriteFile :=
     (\<lambda>p bs. if p = ''out/b.png.enc'' then Some (ErrOS ''disk full'') else None)\<rparr>"

text \<open>
  An environment for decryption: two encrypted files and one other file. The first
  holds what \<^verbatim>\<open>Encrypt\<close> makes of the empty plaintext under the all-zero key and
  nonce with the stand-in AEAD; the second is cut down to three bytes.
\<close>

definition good_blob :: "byte list" where
  "good_blob = zero_nonce @ Seal (toy_gcm zero_key) zero_nonce [] []"

definition encrypted_files :: "node list" where
  "encrypted_files = [File ''a.png.enc'', File ''b.png.enc'', File ''notes.txt'']"

definition env2 :: env where
  "env2 = env0\<lparr>lstat_tree := (\<lambda>p. Dir p encrypted_files),
     ioutil_ReadFile := (\<lambda>p. if p = ''in/b.png.enc'' then Inr [1, 2, 3] else Inr good_blob)\<rparr>"




section \<open>Proofs: steganography\<close>

subsection \<open>One pixel\<close>

text \<open>
  The widening to 16 bits and the narrowing back to 8 cancel: on the 8-bit channels,
  \<^verbatim>\<open>hide_pixel\<close> clears the low bit and sets it to one bit of the message byte, and
  \<^verbatim>\<open>reveal_byte\<close> reads the four low bits back into the high nibble.
\<close>

lemma ucast_widen16_AND_NOT1_OR:
  fixes v :: byte and t :: byte
  shows "(ucast ((widen16 v AND NOT 1) OR (ucast t :: uint32)) :: byte) = (v AND NOT 1) OR t"
  unfolding widen16_def Let_def
  by (rule bit_word_eqI) (auto simp add: bit_simps)

lemma hide_pixel_eq:
  "hide_pixel c m =
     \<lparr>cR = (cR c AND NOT 1) OR drop_bit 7 m,
      cG = (cG c AND NOT 1) OR (drop_bit 6 m AND 1),
      cB = (cB c AND NOT 1) OR (drop_bit 5 m AND 1),
      cA = (cA c AND NOT 1) OR (drop_bit 4 m AND 1)\<rparr>"
  by (simp only: hide_pixel_def RGBA_values_def Let_def prod.case ucast_widen16_AND_NOT1_OR)

lemma reveal_word_eq:
  fixes r g b a :: byte
  shows "(ucast (push_bit 7 (widen16 r AND 1) OR push_bit 6 (widen16 g AND 1)
               OR push_bit 5 (widen16 b AND 1) OR push_bit 4 (widen16 a AND 1)) :: byte) =
    push_bit 7 (r AND 1) OR push_bit 6 (g AND 1) OR push_bit 5 (b AND 1) OR push_bit 4 (a AND 1)"
  unfolding widen16_def Let_def
  by (rule bit_word_eqI) (auto simp add: bit_simps)

lemma reveal_byte_eq:
  "reveal_byte c =
     push_bit 7 (cR c AND 1) OR push_bit 6 (cG c AND 1) OR push_bit 5 (cB c AND 1) OR push_bit 4 (cA c AND 1)"
  by (simp only: reveal_byte_def RGBA_values_def prod.case reveal_word_eq)

lemma byte_index_cases: "(n::nat) < 8 \<Longrightarrow> n \<in> {0, 1, 2, 3, 4, 5, 6, 7}"
  by simp arith

lemma reveal_hide_pixel: "reveal_byte (hide_pixel c m) = m AND 0xF0"
proof (rule bit_word_eqI)
  fix n :: nat
  assume "n < LENGTH(8)"
  then have "n < 8"
    by simp
  then have "n \<in> {0, 1, 2, 3, 4, 5, 6, 7}"
    by (rule byte_index_cases)
  then show "bit (reveal_byte (hide_pixel c m)) n = bit (m AND 0xF0) n"
    unfolding reveal_byte_eq hide_pixel_eq
    by (elim insertE emptyE) (simp_all add: bit_simps)
qed

subsection \<open>The loops of hideMessage\<close>

text \<open>
  A loop over the rows with a loop over the columns inside visits the offsets
  \<^verbatim>\<open>y * w + x\<close> in increasing order.
\<close>

lemma upt_shift: "[a..<a + b] = map (\<lambda>x. a + x) [0..<b]"
  by (induction b) simp_all

lemma fold_upt_split:
  "fold f [0..<a + b] s = fold (\<lambda>x. f (a + x)) [0..<b] (fold f [0..<a] s)"
proof -
  have "[0..<a + b] = [0..<a] @ [a..<a + b]"
    using upt_add_eq_append [of 0 a b] by simp
  then have "[0..<a + b] = [0..<a] @ map (\<lambda>x. a + x) [0..<b]"
    by (simp only: upt_shift)
  then show ?thesis
    by (simp only: fold_append fold_map comp_def)
qed

lemma fold_nested_rows:
  "fold (\<lambda>y. fold (\<lambda>x. f (y * w + x)) [0..<w]) [0..<h] s = fold f [0..<h * w] s"
proof (induction h)
  case 0
  show ?case by simp
next
  case (Suc h)
  have "Suc h * w = h * w + w"
    by simp
  then have "fold f [0..<Suc h * w] s = fold f [0..<h * w + w] s"
    by (simp only:)
  also have "\<dots> = fold (\<lambda>x. f (h * w + x)) [0..<w] (fold f [0..<h * w] s)"
    by (rule fold_upt_split)
  finally show ?case
    using Suc.IH by simp
qed

lemma fold_cong_inv:
  assumes "I s"
    and "\<And>x t. x \<in> set xs \<Longrightarrow> I t \<Longrightarrow> f x t = g x t \<and> I (g x t)"
  shows "fold f xs s = fold g xs s \<and> I (fold g xs s)"
  using assms
proof (induction xs arbitrary: s)
  case Nil
  then show ?case by simp
next
  case (Cons a xs)
  then show ?case by simp
qed

lemma hide_body_at:
  assumes "dims w h t" "x < w" "y < h"
  shows "hide_body message y x t = hide_at message (y * w + x) t \<and> dims w h (hide_at message (y * w + x) t)"
  using assms
  by (cases t) (simp add: hide_body_def hide_at_def dims_def RGBAAt_def SetRGBA_def PixOffset_def)

lemma hide_row_at:
  assumes "dims w h t" "y < h"
  shows "fold (\<lambda>x. hide_body message y x) [0..<w] t = fold (\<lambda>x. hide_at message (y * w + x)) [0..<w] t
         \<and> dims w h (fold (\<lambda>x. hide_at message (y * w + x)) [0..<w] t)"
proof (rule fold_cong_inv [where I = "dims w h"])
  show "dims w h t" by (rule assms)
next
  fix x u
  assume "x \<in> set [0..<w]" "dims w h u"
  then show "hide_body message y x u = hide_at message (y * w + x) u \<and> dims w h (hide_at message (y * w + x) u)"
    using hide_body_at [of w h u x y message] assms(2) by simp
qed

lemma hide_loops_at:
  assumes "dims w h t"
  shows "hide_loops message w h t = fold (hide_at message) [0..<h * w] t"
proof -
  have "fold (\<lambda>y. fold (\<lambda>x. hide_body message y x) [0..<w]) [0..<h] t
        = fold (\<lambda>y. fold (\<lambda>x. hide_at message (y * w + x)) [0..<w]) [0..<h] t
        \<and> dims w h (fold (\<lambda>y. fold (\<lambda>x. hide_at message (y * w + x)) [0..<w]) [0..<h] t)"
  proof (rule fold_cong_inv [where I = "dims w h"])
    show "dims w h t" by (rule assms)
  next
    fix y u
    assume "y \<in> set [0..<h]" "dims w h u"
    then show "fold (\<lambda>x. hide_body message y x) [0..<w] u = fold (\<lambda>x. hide_at message (y * w + x)) [0..<w] u
         \<and> dims w h (fold (\<lambda>x. hide_at message (y * w + x)) [0..<w] u)"
      using hide_row_at [of w h u y message] by simp
  qed
  then show ?thesis
    by (simp add: hide_loops_def fold_nested_rows)
qed

lemma hidden_prefix_0: "hidden_prefix message 0 pix = pix"
  by (simp add: hidden_prefix_def map_nth)

lemma hidden_prefix_length: "length (hidden_prefix message n pix) = length pix"
  by (simp add: hidden_prefix_def)

lemma hidden_prefix_nth:
  "i < length pix \<Longrightarrow> hidden_prefix message n pix ! i =
     (if i < n \<and> i < length message then hide_pixel (pix ! i) (message ! i) else pix ! i)"
  by (simp add: hidden_prefix_def)

lemma hidden_prefix_Suc:
  assumes "n < length pix" "n < length message"
  shows "(hidden_prefix message n pix)[n := hide_pixel (hidden_prefix message n pix ! n) (message ! n)]
         = hidden_prefix message (Suc n) pix"
proof (rule nth_equalityI)
  show "length ((hidden_prefix message n pix)[n := hide_pixel (hidden_prefix message n pix ! n) (message ! n)])
        = length (hidden_prefix message (Suc n) pix)"
    by (simp add: hidden_prefix_length)
next
  fix i
  assume "i < length ((hidden_prefix message n pix)[n := hide_pixel (hidden_prefix message n pix ! n) (message ! n)])"
  then have i: "i < length pix"
    by (simp add: hidden_prefix_length)
  show "(hidden_prefix message n pix)[n := hide_pixel (hidden_prefix message n pix ! n) (message ! n)] ! i
        = hidden_prefix message (Suc n) pix ! i"
  proof (cases "i = n")
    case True
    then show ?thesis
      using assms by (simp add: hidden_prefix_nth hidden_prefix_length)
  next
    case False
    then have "i < Suc n \<longleftrightarrow> i < n" by arith
    then show ?thesis
      using False i by (simp add: hidden_prefix_nth hidden_prefix_length)
  qed
qed

lemma hidden_prefix_stop:
  assumes "length message \<le> n"
  shows "hidden_prefix message (Suc n) pix = hidden_prefix message n pix"
proof -
  have "\<And>i. (i < Suc n \<and> i < length message) = (i < n \<and> i < length message)"
    using assms by arith
  then show ?thesis
    by (simp only: hidden_prefix_def)
qed

lemma hide_at_step:
  "hide_at message n (img, k) =
     (if k < length message
      then (img\<lparr>Pix := (Pix img)[n := hide_pixel (Pix img ! n) (message ! k)]\<rparr>, Suc k)
      else (img, k))"
  by (simp add: hide_at_def)

lemma fold_hide_at:
  assumes "n \<le> length (Pix img)"
  shows "fold (hide_at message) [0..<n] (img, 0)
         = (img\<lparr>Pix := hidden_prefix message n (Pix img)\<rparr>, min n (length message))"
  using assms
proof (induction n)
  case 0
  show ?case by (simp add: hidden_prefix_0)
next
  case (Suc n)
  then have IH: "fold (hide_at message) [0..<n] (img, 0)
         = (img\<lparr>Pix := hidden_prefix message n (Pix img)\<rparr>, min n (length message))"
    by simp
  have step: "fold (hide_at message) [0..<Suc n] (img, 0)
         = hide_at message n (img\<lparr>Pix := hidden_prefix message n (Pix img)\<rparr>, min n (length message))"
    by (simp add: IH)
  show ?case
  proof (cases "n < length message")
    case True
    then have m: "min n (length message) = n" "min (Suc n) (length message) = Suc n"
      by simp_all
    from Suc.prems have "n < length (Pix img)" by simp
    then have "(hidden_prefix message n (Pix img))[n := hide_pixel (hidden_prefix message n (Pix img) ! n) (message ! n)]
         = hidden_prefix message (Suc n) (Pix img)"
      using True by (rule hidden_prefix_Suc)
    then have "hide_at message n (img\<lparr>Pix := hidden_prefix message n (Pix img)\<rparr>, n)
        = (img\<lparr>Pix := hidden_prefix message (Suc n) (Pix img)\<rparr>, Suc n)"
      using True by (simp add: hide_at_step)
    then show ?thesis
      unfolding step m .
  next
    case False
    then have m: "min n (length message) = length message" "min (Suc n) (length message) = length message"
      by simp_all
    from False have "length message \<le> n" by simp
    then have "hidden_prefix message (Suc n) (Pix img) = hidden_prefix message n (Pix img)"
      by (rule hidden_prefix_stop)
    then have "hide_at message n (img\<lparr>Pix := hidden_prefix message n (Pix img)\<rparr>, length message)
        = (img\<lparr>Pix := hidden_prefix message (Suc n) (Pix img)\<rparr>, length message)"
      by (simp add: hide_at_step)
    then show ?thesis
      unfolding step m .
  qed
qed

lemma hide_char:
  assumes "wf_image img"
  shows "hide img M = img\<lparr>Pix := hidden_prefix (M @ [0]) (length (Pix img)) (Pix img)\<rparr>"
proof -
  have d: "dims (Dx img) (Dy img) (img, 0)"
    using assms by (simp add: dims_def wf_image_def)
  have len: "Dy img * Dx img = length (Pix img)"
    using assms by (simp add: wf_image_def)
  have "hide_loops (M @ [0]) (Dx img) (Dy img) (img, 0)
        = fold (hide_at (M @ [0])) [0..<Dy img * Dx img] (img, 0)"
    using d by (rule hide_loops_at)
  also have "\<dots> = fold (hide_at (M @ [0])) [0..<length (Pix img)] (img, 0)"
    by (simp only: len)
  also have "\<dots> = (img\<lparr>Pix := hidden_prefix (M @ [0]) (length (Pix img)) (Pix img)\<rparr>,
                      min (length (Pix img)) (length (M @ [0])))"
    by (rule fold_hide_at) simp
  finally have loops: "hide_loops (M @ [0]) (Dx img) (Dy img) (img, 0) =
     (img\<lparr>Pix := hidden_prefix (M @ [0]) (length (Pix img)) (Pix img)\<rparr>,
      min (length (Pix img)) (length (M @ [0])))" .
  have "hide img M = fst (hide_loops (M @ [0]) (Dx img) (Dy img) (img, 0))"
    unfolding hide_def Let_def ..
  then show ?thesis
    by (simp only: loops fst_conv)
qed

subsection \<open>The loops of revealMessage\<close>

lemma fold_snoc_map: "fold (\<lambda>x acc. acc @ [g x]) xs acc = acc @ map g xs"
  by (induction xs arbitrary: acc) simp_all

lemma reveal_loops_eq:
  assumes "wf_image img"
  shows "reveal_loops img (Dx img) (Dy img) [] = map reveal_byte (Pix img)"
proof -
  let ?w = "Dx img" and ?h = "Dy img"
  let ?f = "\<lambda>i acc. acc @ [reveal_byte (Pix img ! i)]"
  have row: "fold (\<lambda>x acc. acc @ [reveal_byte (RGBAAt img x y)]) [0..<?w]
             = fold (\<lambda>x. ?f (y * ?w + x)) [0..<?w]" if "y < ?h" for y
  proof
    fix acc
    show "fold (\<lambda>x acc. acc @ [reveal_byte (RGBAAt img x y)]) [0..<?w] acc
             = fold (\<lambda>x. ?f (y * ?w + x)) [0..<?w] acc"
      using that by (intro fold_cong) (simp_all add: RGBAAt_def PixOffset_def)
  qed
  have "reveal_loops img ?w ?h [] = fold (\<lambda>y. fold (\<lambda>x. ?f (y * ?w + x)) [0..<?w]) [0..<?h] []"
    unfolding reveal_loops_def
    by (intro fold_cong) (simp_all add: row)
  also have "\<dots> = fold ?f [0..<?h * ?w] []"
    by (rule fold_nested_rows)
  also have "\<dots> = map (\<lambda>i. reveal_byte (Pix img ! i)) [0..<?h * ?w]"
    by (simp add: fold_snoc_map)
  also have "?h * ?w = length (Pix img)"
    using assms by (simp add: wf_image_def)
  finally show ?thesis
    by (simp add: map_nth flip: map_map [unfolded comp_def])
qed

lemma Split_from_head:
  "\<exists>rest. Split_from cur sep s = (cur @ takeWhile (\<lambda>c. c \<noteq> sep) s) # rest"
proof (induction s arbitrary: cur)
  case Nil
  show ?case by simp
next
  case (Cons a s)
  show ?case
  proof (cases "a = sep")
    case True
    then show ?thesis by simp
  next
    case False
    from Cons [of "cur @ [a]"] obtain rest
      where "Split_from (cur @ [a]) sep s = ((cur @ [a]) @ takeWhile (\<lambda>c. c \<noteq> sep) s) # rest" ..
    then show ?thesis
      using False by simp
  qed
qed

lemma reveal_eq:
  assumes "wf_image img"
  shows "reveal img = Inr (takeWhile (\<lambda>b. b \<noteq> 0) (map reveal_byte (Pix img)))"
proof -
  obtain rest where "Split (map reveal_byte (Pix img)) 0
      = takeWhile (\<lambda>b. b \<noteq> 0) (map reveal_byte (Pix img)) # rest"
    using Split_from_head [of "[]" 0 "map reveal_byte (Pix img)"] by (auto simp add: Split_def)
  then show ?thesis
    using assms by (simp add: reveal_def Let_def reveal_loops_eq)
qed

subsection \<open>What hide does to each pixel\<close>

lemma spec_reveal_byte_eq: "reveal_byte c = spec_reveal_byte c"
  by (simp only: reveal_byte_eq spec_reveal_byte_def)

lemma hide_pixel_lsb:
  "bit (cR (hide_pixel c m)) 0 = bit m 7"
  "bit (cG (hide_pixel c m)) 0 = bit m 6"
  "bit (cB (hide_pixel c m)) 0 = bit m 5"
  "bit (cA (hide_pixel c m)) 0 = bit m 4"
  by (simp_all add: hide_pixel_eq bit_simps)

lemma keep_high_bits:
  fixes v t :: byte
  shows "((v AND NOT 1) OR (t AND 1)) AND NOT 1 = v AND NOT 1"
  by (rule bit_word_eqI) (auto simp add: bit_simps)

lemma drop_bit_7_byte: "drop_bit 7 (m :: byte) = drop_bit 7 m AND 1"
  by (rule bit_word_eqI) (auto simp add: bit_simps dest: bit_imp_le_length)

lemma hide_pixel_high:
  "cR (hide_pixel c m) AND NOT 1 = cR c AND NOT 1"
  "cG (hide_pixel c m) AND NOT 1 = cG c AND NOT 1"
  "cB (hide_pixel c m) AND NOT 1 = cB c AND NOT 1"
  "cA (hide_pixel c m) AND NOT 1 = cA c AND NOT 1"
proof -
  have "cR (hide_pixel c m) = (cR c AND NOT 1) OR (drop_bit 7 m AND 1)"
    using drop_bit_7_byte [of m] by (simp add: hide_pixel_eq)
  then show "cR (hide_pixel c m) AND NOT 1 = cR c AND NOT 1"
    by (simp only: keep_high_bits)
  show "cG (hide_pixel c m) AND NOT 1 = cG c AND NOT 1"
    unfolding hide_pixel_eq by (simp only: RGBA.simps keep_high_bits)
  show "cB (hide_pixel c m) AND NOT 1 = cB c AND NOT 1"
    unfolding hide_pixel_eq by (simp only: RGBA.simps keep_high_bits)
  show "cA (hide_pixel c m) AND NOT 1 = cA c AND NOT 1"
    unfolding hide_pixel_eq by (simp only: RGBA.simps keep_high_bits)
qed

lemma hide_dims:
  assumes "wf_image img"
  shows "Dx (hide img M) = Dx img" "Dy (hide img M) = Dy img" "wf_image (hide img M)"
  using assms by (simp_all add: hide_char wf_image_def hidden_prefix_length)

lemma hide_At:
  assumes "wf_image img" "x < Dx img" "y < Dy img"
  shows "RGBAAt (hide img M) x y =
     (if y * Dx img + x < length M + 1
      then hide_pixel (RGBAAt img x y) ((M @ [0]) ! (y * Dx img + x))
      else RGBAAt img x y)"
proof -
  have "y * Dx img + x < Dx img * Dy img"
  proof -
    have "y * Dx img + x < y * Dx img + Dx img" using assms(2) by simp
    also have "\<dots> = Suc y * Dx img" by simp
    also have "\<dots> \<le> Dy img * Dx img" using assms(3) by (intro mult_le_mono1) simp
    finally show ?thesis by (simp add: mult.commute)
  qed
  then have "y * Dx img + x < length (Pix img)"
    using assms(1) by (simp add: wf_image_def)
  then show ?thesis
    using assms by (simp add: hide_char RGBAAt_def PixOffset_def hidden_prefix_nth)
qed

text \<open>
  Claim C4. Let \<^verbatim>\<open>img\<close> be an image of \<^verbatim>\<open>Dx\<close> by \<^verbatim>\<open>Dy\<close> pixels and \<^verbatim>\<open>(x, y)\<close> one of
  its pixels, with row-major index \<^verbatim>\<open>i = y * Dx + x\<close>. If \<^verbatim>\<open>i < len(M) + 1\<close>, then
  after \<^verbatim>\<open>hide\<close> the least significant bits of the R, G, B, A channels of that pixel
  are bits 7, 6, 5, 4 of byte \<^verbatim>\<open>i\<close> of the NUL-terminated message, and the other seven
  bits of each channel are those of the input. If \<^verbatim>\<open>i \<ge> len(M) + 1\<close>, the pixel is the
  input's. The dimensions do not change.
\<close>

theorem hide_embeds_top_bits:
  assumes "wf_image img" and "x < Dx img" and "y < Dy img"
  shows "Dx (hide img M) = Dx img \<and> Dy (hide img M) = Dy img \<and> wf_image (hide img M) \<and>
     (y * Dx img + x < length M + 1 \<longrightarrow>
        (let p = RGBAAt img x y; q = RGBAAt (hide img M) x y; m = (M @ [0]) ! (y * Dx img + x)
         in bit (cR q) 0 = bit m 7 \<and> bit (cG q) 0 = bit m 6
            \<and> bit (cB q) 0 = bit m 5 \<and> bit (cA q) 0 = bit m 4
            \<and> cR q AND NOT 1 = cR p AND NOT 1 \<and> cG q AND NOT 1 = cG p AND NOT 1
            \<and> cB q AND NOT 1 = cB p AND NOT 1 \<and> cA q AND NOT 1 = cA p AND NOT 1)) \<and>
     (length M + 1 \<le> y * Dx img + x \<longrightarrow> RGBAAt (hide img M) x y = RGBAAt img x y)"
proof (intro conjI impI)
  show "Dx (hide img M) = Dx img" "Dy (hide img M) = Dy img" "wf_image (hide img M)"
    using assms(1) by (rule hide_dims)+
next
  assume "y * Dx img + x < length M + 1"
  then have "RGBAAt (hide img M) x y = hide_pixel (RGBAAt img x y) ((M @ [0]) ! (y * Dx img + x))"
    using hide_At [OF assms, of M] by simp
  then show "let p = RGBAAt img x y; q = RGBAAt (hide img M) x y; m = (M @ [0]) ! (y * Dx img + x)
         in bit (cR q) 0 = bit m 7 \<and> bit (cG q) 0 = bit m 6
            \<and> bit (cB q) 0 = bit m 5 \<and> bit (cA q) 0 = bit m 4
            \<and> cR q AND NOT 1 = cR p AND NOT 1 \<and> cG q AND NOT 1 = cG p AND NOT 1
            \<and> cB q AND NOT 1 = cB p AND NOT 1 \<and> cA q AND NOT 1 = cA p AND NOT 1"
    by (simp only: Let_def hide_pixel_lsb hide_pixel_high simp_thms)
next
  assume "length M + 1 \<le> y * Dx img + x"
  then show "RGBAAt (hide img M) x y = RGBAAt img x y"
    using hide_At [OF assms, of M] by simp
qed

lemma wf_img_3x1: "wf_image img_3x1"
  by (simp add: wf_image_def img_3x1_def)

text \<open>
  Witness for C4: the message \<^verbatim>\<open>"A"\<close> in a 3 by 1 image; pixel 0 carries the byte
  \<^verbatim>\<open>0x41\<close>, pixel 2 lies beyond the terminator.
\<close>

theorem hide_embeds_top_bits_witness:
  "(let q = RGBAAt (hide img_3x1 [0x41]) 0 0
    in bit (cR q) 0 = bit (0x41 :: byte) 7 \<and> bit (cG q) 0 = bit (0x41 :: byte) 6
       \<and> bit (cB q) 0 = bit (0x41 :: byte) 5 \<and> bit (cA q) 0 = bit (0x41 :: byte) 4)
   \<and> RGBAAt (hide img_3x1 [0x41]) 2 0 = RGBAAt img_3x1 2 0"
proof -
  have d: "(0::nat) < Dx img_3x1" "2 < Dx img_3x1" "(0::nat) < Dy img_3x1"
    by (simp_all add: img_3x1_def)
  show ?thesis
    using hide_embeds_top_bits [OF wf_img_3x1 d(1) d(3), of "[0x41]"]
      hide_embeds_top_bits [OF wf_img_3x1 d(2) d(3), of "[0x41]"]
    by (simp add: Let_def img_3x1_def)
qed

subsection \<open>What reveal returns\<close>

text \<open>
  Claim C5. For every image, \<^verbatim>\<open>reveal\<close> raises no error and returns the bytes
  \<^verbatim>\<open>(R_lsb<<7)|(G_lsb<<6)|(B_lsb<<5)|(A_lsb<<4)\<close> of all pixels in row-major order,
  cut at the first NUL byte; if none of these bytes is NUL it returns all of them.
\<close>

theorem reveal_reconstructs:
  assumes "wf_image img"
  shows "reveal img = Inr (takeWhile (\<lambda>b. b \<noteq> 0) (map spec_reveal_byte (Pix img)))
     \<and> (0 \<notin> set (map spec_reveal_byte (Pix img))
          \<longrightarrow> reveal img = Inr (map spec_reveal_byte (Pix img)))
     \<and> (\<forall>y < Dy img. \<forall>x < Dx img.
          map spec_reveal_byte (Pix img) ! (y * Dx img + x) = spec_reveal_byte (RGBAAt img x y))"
proof (intro conjI impI allI)
  have m: "map reveal_byte (Pix img) = map spec_reveal_byte (Pix img)"
    by (simp add: spec_reveal_byte_eq)
  show r: "reveal img = Inr (takeWhile (\<lambda>b. b \<noteq> 0) (map spec_reveal_byte (Pix img)))"
    using reveal_eq [OF assms] by (simp only: m)
  assume "0 \<notin> set (map spec_reveal_byte (Pix img))"
  then have "takeWhile (\<lambda>b. b \<noteq> 0) (map spec_reveal_byte (Pix img)) = map spec_reveal_byte (Pix img)"
    by (intro takeWhile_eq_all_conv [THEN iffD2]) auto
  then show "reveal img = Inr (map spec_reveal_byte (Pix img))"
    using r by simp
next
  fix y x
  assume "y < Dy img" "x < Dx img"
  moreover from this have "y * Dx img + x < length (Pix img)"
  proof -
    have "y * Dx img + x < Suc y * Dx img" using \<open>x < Dx img\<close> by simp
    also have "\<dots> \<le> Dy img * Dx img" using \<open>y < Dy img\<close> by (intro mult_le_mono1) simp
    finally show ?thesis using assms by (simp add: wf_image_def mult.commute)
  qed
  ultimately show "map spec_reveal_byte (Pix img) ! (y * Dx img + x) = spec_reveal_byte (RGBAAt img x y)"
    by (simp add: RGBAAt_def PixOffset_def)
qed

lemma wf_img_2x1: "wf_image img_2x1"
  by (simp add: wf_image_def img_2x1_def)

text \<open>
  Witness for C5: two white pixels decode to \<^verbatim>\<open>0xF0 0xF0\<close>, with no NUL among them.
\<close>

theorem reveal_reconstructs_witness:
  "reveal img_2x1 = Inr [0xF0, 0xF0]"
  using reveal_reconstructs [OF wf_img_2x1]
  by (simp add: img_2x1_def white_def spec_reveal_byte_def)

lemma spec_reveal_byte_low: "spec_reveal_byte c AND 0x0F = 0"
proof (rule bit_word_eqI)
  fix n :: nat
  assume "n < LENGTH(8)"
  then have "n < 8"
    by simp
  then have "n \<in> {0, 1, 2, 3, 4, 5, 6, 7}"
    by (rule byte_index_cases)
  then show "bit (spec_reveal_byte c AND 0x0F) n = bit (0 :: byte) n"
    unfolding spec_reveal_byte_def
    by (elim insertE emptyE) (simp_all add: bit_simps)
qed

lemma low_nibble_mod16: "(b :: byte) AND 0x0F = 0 \<Longrightarrow> unat b mod 16 = 0"
proof -
  assume "b AND 0x0F = 0"
  then have "take_bit 4 b = 0"
    by (simp add: take_bit_eq_mask mask_eq_exp_minus_1)
  then have "b mod 16 = 0"
    by (simp add: take_bit_eq_mod)
  then have "unat (b mod 16) = 0" by simp
  then show ?thesis
    by (simp add: unat_mod)
qed

lemma reveal_byte_spec_fun: "reveal_byte = spec_reveal_byte"
  by (rule ext) (rule spec_reveal_byte_eq)

text \<open>
  Claim C10. For every image, \<^verbatim>\<open>reveal\<close> returns a string, and every byte of it has
  its low four bits zero (it is a multiple of 16) and is not NUL.
\<close>

theorem reveal_bytes_high_nibble_only:
  assumes "wf_image img"
  shows "case reveal img of
           Inl e \<Rightarrow> False
         | Inr m \<Rightarrow> \<forall>b \<in> set m. b AND 0x0F = 0 \<and> unat b mod 16 = 0 \<and> b \<noteq> 0"
proof -
  have r: "reveal img = Inr (takeWhile (\<lambda>b. b \<noteq> 0) (map spec_reveal_byte (Pix img)))"
    using reveal_eq [OF assms] by (simp only: reveal_byte_spec_fun)
  have "b AND 0x0F = 0 \<and> unat b mod 16 = 0 \<and> b \<noteq> 0"
    if "b \<in> set (takeWhile (\<lambda>b. b \<noteq> 0) (map spec_reveal_byte (Pix img)))" for b
  proof -
    from that have "b \<noteq> 0" "b \<in> set (map spec_reveal_byte (Pix img))"
      by (auto dest: set_takeWhileD)
    then obtain c where "b = spec_reveal_byte c" by auto
    then have "b AND 0x0F = 0" by (simp only: spec_reveal_byte_low)
    then show ?thesis using \<open>b \<noteq> 0\<close> low_nibble_mod16 by simp
  qed
  then show ?thesis
    by (simp add: r)
qed

text \<open>Witness for C10: the two bytes revealed from two white pixels.\<close>

theorem reveal_bytes_high_nibble_only_witness:
  "case reveal img_2x1 of
     Inl e \<Rightarrow> False
   | Inr m \<Rightarrow> m \<noteq> [] \<and> (\<forall>b \<in> set m. b AND 0x0F = 0 \<and> unat b mod 16 = 0 \<and> b \<noteq> 0)"
proof -
  have "reveal img_2x1 = Inr [0xF0, 0xF0]"
    using reveal_eq [OF wf_img_2x1]
    by (simp add: img_2x1_def white_def reveal_byte_eq)
  then show ?thesis
    using reveal_bytes_high_nibble_only [OF wf_img_2x1] by simp
qed

subsection \<open>An image with too few pixels\<close>

lemma hidden_prefix_short:
  assumes "length pix \<le> length message"
  shows "hidden_prefix message (length pix) pix = map2 hide_pixel pix message"
proof (rule nth_equalityI)
  show "length (hidden_prefix message (length pix) pix) = length (map2 hide_pixel pix message)"
    using assms by (simp add: hidden_prefix_length)
next
  fix i
  assume "i < length (hidden_prefix message (length pix) pix)"
  then have "i < length pix" by (simp add: hidden_prefix_length)
  then show "hidden_prefix message (length pix) pix ! i = map2 hide_pixel pix message ! i"
    using assms by (simp add: hidden_prefix_nth)
qed

text \<open>
  Claim C2, as amended. \<^verbatim>\<open>hideMessage\<close> has no capacity check. When the image has
  fewer pixels than the NUL-terminated message has bytes, every pixel receives one byte
  of the message, in order, the remaining bytes are dropped, and the call fails only
  if creating the output directory or saving the image fails; otherwise the image is
  written and the call succeeds.
\<close>

theorem hide_truncates_when_short:
  assumes "LoadImage E inputFilename = Inr img"
    and "wf_image img"
    and "Dx img * Dy img < length M + 1"
  shows "hideMessage E inputFilename outputFilename M outputFormat =
     (let out = img\<lparr>Pix := map2 hide_pixel (Pix img) (M @ [0])\<rparr>
      in case os_MkdirAll E (filepath_Dir E outputFilename) of
           Some err \<Rightarrow> Inl err
         | None \<Rightarrow>
             (case SaveImage E outputFilename out outputFormat of
                Inl err \<Rightarrow> Inl err
              | Inr bs \<Rightarrow> Inr out))"
proof -
  have "length (Pix img) \<le> length (M @ [0])"
    using assms(2,3) by (simp add: wf_image_def)
  then have "hide img M = img\<lparr>Pix := map2 hide_pixel (Pix img) (M @ [0])\<rparr>"
    using hide_char [OF assms(2), of M] by (simp only: hidden_prefix_short)
  then show ?thesis
    using assms(1) by (simp add: hideMessage_def Let_def)
qed

lemma wf_img_1x1: "wf_image img_1x1"
  by (simp add: wf_image_def img_1x1_def)

lemma hide_pixel_white_A:
  "hide_pixel white 0x41 = \<lparr>cR = 254, cG = 255, cB = 254, cA = 254\<rparr>"
  by (simp add: hide_pixel_eq white_def)

lemma LoadImage_env0: "LoadImage env0 p = Inr img_1x1"
  by (simp add: LoadImage_def env0_def)

lemma MkdirAll_env0: "os_MkdirAll env0 p = None"
  by (simp add: env0_def)

lemma ToLower_png: "ToLower ''png'' = ''png''"
  by (simp add: ToLower_def ToLower_char_def)

lemma SaveImage_env0: "SaveImage env0 p img ''png'' = Inr []"
  by (simp add: SaveImage_def ToLower_png) (simp add: env0_def)

text \<open>Witness for the amended C2: the message \<^verbatim>\<open>"AB"\<close> and a 1 by 1 image.\<close>

theorem hide_truncates_when_short_witness:
  "hideMessage env0 ''in.png'' ''out.png'' [0x41, 0x42] ''png''
     = Inr (img_1x1\<lparr>Pix := [hide_pixel white 0x41]\<rparr>)"
proof -
  have short: "Dx img_1x1 * Dy img_1x1 < length [0x41, 0x42 :: byte] + 1"
    by (simp add: img_1x1_def)
  from hide_truncates_when_short [OF LoadImage_env0 wf_img_1x1 short, of "''in.png''" "''out.png''" "''png''"]
  show ?thesis
    by (simp add: img_1x1_def SaveImage_env0 MkdirAll_env0 Let_def)
qed

text \<open>
  Counterexample to C2 as stated: a 1 by 1 image cannot hold the three bytes of
  \<^verbatim>\<open>"AB"\<close> and its terminator, yet \<^verbatim>\<open>hideMessage\<close> returns no error and writes an
  image.
\<close>

theorem hide_accepts_too_small_image:
  "LoadImage env0 ''in.png'' = Inr img_1x1
   \<and> Dx img_1x1 * Dy img_1x1 < length [0x41, 0x42 :: byte] + 1
   \<and> hideMessage env0 ''in.png'' ''out.png'' [0x41, 0x42] ''png''
       = Inr \<lparr>Pix = [\<lparr>cR = 254, cG = 255, cB = 254, cA = 254\<rparr>], Dx = 1, Dy = 1\<rparr>"
proof -
  have "hide img_1x1 [0x41, 0x42]
        = img_1x1\<lparr>Pix := hidden_prefix ([0x41, 0x42] @ [0]) (length (Pix img_1x1)) (Pix img_1x1)\<rparr>"
    using wf_img_1x1 by (rule hide_char)
  then have "hide img_1x1 [0x41, 0x42]
        = \<lparr>Pix = [\<lparr>cR = 254, cG = 255, cB = 254, cA = 254\<rparr>], Dx = 1, Dy = 1\<rparr>"
    by (simp add: img_1x1_def hidden_prefix_def hide_pixel_white_A)
  then show ?thesis
    by (simp add: hideMessage_def LoadImage_env0 SaveImage_env0 MkdirAll_env0 img_1x1_def)
qed

subsection \<open>Hiding, then revealing\<close>

text \<open>
  With enough pixels, revealing after hiding gives the message with the low four bits
  of every byte cleared, cut at the first byte that is NUL after the clearing.
\<close>

lemma takeWhile_stop: "\<not> P x \<Longrightarrow> takeWhile P (xs @ x # ys) = takeWhile P xs"
  by (induction xs) simp_all

lemma reveal_hide:
  assumes "wf_image img" and "length M + 1 \<le> Dx img * Dy img"
  shows "reveal (hide img M) = Inr (takeWhile (\<lambda>b. b \<noteq> 0) (map (\<lambda>b. b AND 0xF0) M))"
proof -
  let ?pix = "Pix img" and ?M' = "M @ [0]"
  have len: "length ?M' \<le> length ?pix"
    using assms by (simp add: wf_image_def)
  have "map reveal_byte (hidden_prefix ?M' (length ?pix) ?pix)
        = map (\<lambda>b. b AND 0xF0) ?M' @ map reveal_byte (drop (length ?M') ?pix)"
  proof (rule nth_equalityI)
    show "length (map reveal_byte (hidden_prefix ?M' (length ?pix) ?pix))
          = length (map (\<lambda>b. b AND 0xF0) ?M' @ map reveal_byte (drop (length ?M') ?pix))"
      using len by (simp add: hidden_prefix_length)
  next
    fix i
    assume "i < length (map reveal_byte (hidden_prefix ?M' (length ?pix) ?pix))"
    then have i: "i < length ?pix" by (simp add: hidden_prefix_length)
    show "map reveal_byte (hidden_prefix ?M' (length ?pix) ?pix) ! i
          = (map (\<lambda>b. b AND 0xF0) ?M' @ map reveal_byte (drop (length ?M') ?pix)) ! i"
    proof (cases "i < length ?M'")
      case True
      then have "(map (\<lambda>b. b AND 0xF0) ?M' @ map reveal_byte (drop (length ?M') ?pix)) ! i
                 = ?M' ! i AND 0xF0"
        by (simp only: nth_append length_map if_True nth_map)
      then show ?thesis
        using True i by (simp add: hidden_prefix_nth hidden_prefix_length reveal_hide_pixel)
    next
      case False
      then have "(map (\<lambda>b. b AND 0xF0) ?M' @ map reveal_byte (drop (length ?M') ?pix)) ! i
                 = reveal_byte (?pix ! i)"
        using i by (simp add: nth_append)
      then show ?thesis
        using False i by (simp add: hidden_prefix_nth hidden_prefix_length)
    qed
  qed
  also have "\<dots> = map (\<lambda>b. b AND 0xF0) M @ 0 # map reveal_byte (drop (length ?M') ?pix)"
    by simp
  finally have "takeWhile (\<lambda>b. b \<noteq> 0) (map reveal_byte (hidden_prefix ?M' (length ?pix) ?pix))
        = takeWhile (\<lambda>b. b \<noteq> 0) (map (\<lambda>b. b AND 0xF0) M)"
    by (simp only: takeWhile_stop)
  moreover have "wf_image (hide img M)"
    using assms(1) by (rule hide_dims)
  ultimately show ?thesis
    using reveal_eq [of "hide img M"] hide_char [OF assms(1), of M] by simp
qed

text \<open>
  Claim C1 at the input of the specification's own scenario: the message \<^verbatim>\<open>"A"\<close>
  (\<^verbatim>\<open>0x41\<close>) hidden in a 2 by 1 image is revealed as \<^verbatim>\<open>"@"\<close> (\<^verbatim>\<open>0x40\<close>), not as
  \<^verbatim>\<open>"A"\<close>.
\<close>

theorem roundtrip_drops_low_nibble:
  "reveal (hide img_2x1 [0x41]) = Inr [0x40] \<and> reveal (hide img_2x1 [0x41]) \<noteq> Inr [0x41]"
proof -
  have "length [0x41 :: byte] + 1 \<le> Dx img_2x1 * Dy img_2x1"
    by (simp add: img_2x1_def)
  then have "reveal (hide img_2x1 [0x41]) = Inr [0x40]"
    using reveal_hide [OF wf_img_2x1, of "[0x41]"] by simp
  then show ?thesis
    by simp
qed


section \<open>Proofs: encryption\<close>

subsection \<open>The stand-in AEAD meets the contract\<close>

lemma toy_gcm_sizes: "gcm_standard_sizes (toy_gcm key)"
  by (simp add: gcm_standard_sizes_def toy_gcm_def)

lemma toy_tag_length: "length (toy_tag key nonce plaintext ad) = 16"
  by (simp add: toy_tag_def)

lemma toy_gcm_overhead: "seal_adds_overhead (toy_gcm key)"
  by (simp add: seal_adds_overhead_def toy_gcm_def toy_tag_length)

lemma xor_twice: "(\<lambda>b. b XOR p) \<circ> (\<lambda>b. b XOR p) = (id :: byte \<Rightarrow> byte)"
  by (rule ext) (simp add: xor.assoc)

lemma toy_gcm_inverse: "open_inverts_seal (toy_gcm key)"
  by (simp add: open_inverts_seal_def toy_gcm_def toy_tag_length xor_twice Let_def)

lemma toy_gcm_needs_tag: "open_needs_tag (toy_gcm key)"
  by (simp add: open_needs_tag_def toy_gcm_def)

subsection \<open>Encrypt and Decrypt on a key of 32 bytes\<close>

lemma NewCipher_32: "length key = KeySize \<Longrightarrow> aes_NewCipher key = Inr key"
  by (simp add: aes_NewCipher_def KeySize_def)

lemma Encrypt_ok:
  assumes "length K = KeySize" and "length nonce = NonceSize (gcm K)"
  shows "Encrypt gcm nonce K P = Inr (nonce @ Seal (gcm K) nonce P [])"
  using assms by (simp add: Encrypt_def NewCipher_32 cipher_NewGCM_def io_ReadFull_def)

lemma Decrypt_split:
  assumes "length K = KeySize" and "length nonce = NonceSize (gcm K)"
  shows "Decrypt gcm K (nonce @ body) =
     (case Open (gcm K) nonce body [] of
        Inl err \<Rightarrow> Inl (FailedToOpenGCM err)
      | Inr plaintext \<Rightarrow> Inr plaintext)"
  using assms by (simp add: Decrypt_def NewCipher_32 cipher_NewGCM_def Let_def)

text \<open>
  Claim C3. For every key of 32 bytes, every nonce of 12 bytes delivered by the random
  source and every plaintext \<^verbatim>\<open>P\<close>, \<^verbatim>\<open>Encrypt\<close> succeeds and \<^verbatim>\<open>Decrypt\<close> of its blob
  under the same key returns exactly \<^verbatim>\<open>P\<close>, for an AEAD of the standard sizes whose
  \<^verbatim>\<open>Open\<close> inverts its \<^verbatim>\<open>Seal\<close>, as the library's AES-GCM does.
\<close>

theorem decrypt_encrypt:
  assumes "gcm_standard_sizes (gcm K)"
    and "open_inverts_seal (gcm K)"
    and "length K = KeySize"
    and "length nonce = 12"
  shows "case Encrypt gcm nonce K P of
           Inl err \<Rightarrow> False
         | Inr blob \<Rightarrow> Decrypt gcm K blob = Inr P"
proof -
  have n: "length nonce = NonceSize (gcm K)"
    using assms(1,4) by (simp add: gcm_standard_sizes_def)
  have "Open (gcm K) nonce (Seal (gcm K) nonce P []) [] = Inr P"
    using assms(2) n by (simp add: open_inverts_seal_def)
  then have "Decrypt gcm K (nonce @ Seal (gcm K) nonce P []) = Inr P"
    using Decrypt_split [where gcm = gcm and K = K, OF assms(3) n] by simp
  then show ?thesis
    using Encrypt_ok [where gcm = gcm and K = K, OF assms(3) n] by simp
qed

lemma zero_key_length: "length zero_key = KeySize"
  by (simp add: zero_key_def KeySize_def)

lemma zero_nonce_length: "length zero_nonce = 12"
  by (simp add: zero_nonce_def)

text \<open>
  Witness for C3: the all-zero key and nonce and the plaintext \<^verbatim>\<open>"AB"\<close>, with the
  stand-in AEAD.
\<close>

theorem decrypt_encrypt_witness:
  "case Encrypt toy_gcm zero_nonce zero_key [0x41, 0x42] of
     Inl err \<Rightarrow> False
   | Inr blob \<Rightarrow> Decrypt toy_gcm zero_key blob = Inr [0x41, 0x42]"
  using decrypt_encrypt [where gcm = toy_gcm and K = zero_key, OF toy_gcm_sizes toy_gcm_inverse zero_key_length zero_nonce_length]
  by simp

text \<open>
  Claim C6. For every key of 32 bytes and every plaintext \<^verbatim>\<open>P\<close>, \<^verbatim>\<open>Encrypt\<close> succeeds
  and returns \<^verbatim>\<open>len(P) + 12 + 16\<close> bytes: the 12 bytes of the nonce of this call, then
  the output of \<^verbatim>\<open>Seal\<close>, which is \<^verbatim>\<open>len(P) + 16\<close> bytes long (ciphertext and tag),
  for an AEAD of the standard sizes whose \<^verbatim>\<open>Seal\<close> adds the tag's length.
\<close>

theorem encrypt_blob_layout:
  assumes "gcm_standard_sizes (gcm K)"
    and "seal_adds_overhead (gcm K)"
    and "length K = KeySize"
    and "length nonce = 12"
  shows "case Encrypt gcm nonce K P of
           Inl err \<Rightarrow> False
         | Inr blob \<Rightarrow>
             length blob = length P + 12 + 16
             \<and> take 12 blob = nonce
             \<and> drop 12 blob = Seal (gcm K) nonce P []
             \<and> length (Seal (gcm K) nonce P []) = length P + 16"
proof -
  have n: "length nonce = NonceSize (gcm K)"
    using assms(1,4) by (simp add: gcm_standard_sizes_def)
  have "length (Seal (gcm K) nonce P []) = length P + 16"
    using assms(1,2) by (simp add: seal_adds_overhead_def gcm_standard_sizes_def)
  then show ?thesis
    using Encrypt_ok [where gcm = gcm and K = K, OF assms(3) n] assms(4) by simp
qed

text \<open>Witness for C6: the blob for \<^verbatim>\<open>"AB"\<close> has 30 bytes and starts with the nonce.\<close>

theorem encrypt_blob_layout_witness:
  "case Encrypt toy_gcm zero_nonce zero_key [0x41, 0x42] of
     Inl err \<Rightarrow> False
   | Inr blob \<Rightarrow> length blob = 2 + 12 + 16 \<and> take 12 blob = zero_nonce"
  using encrypt_blob_layout [where gcm = toy_gcm and K = zero_key and P = "[0x41, 0x42]",
      OF toy_gcm_sizes toy_gcm_overhead zero_key_length zero_nonce_length]
  by (simp split: sum.splits)

text \<open>
  Claim C7. For every key of 32 bytes: a blob shorter than 12 bytes is rejected with
  the ciphertext-too-short error, whatever \<^verbatim>\<open>Open\<close> would do (the test comes before
  the split and before \<^verbatim>\<open>Open\<close>); a blob of 12 to 27 bytes is split and rejected by
  \<^verbatim>\<open>Open\<close>, which refuses an input shorter than the tag; so no blob shorter than 28
  bytes yields a plaintext.
\<close>

theorem decrypt_rejects_short:
  assumes "gcm_standard_sizes (gcm K)" and "length K = KeySize"
  shows "(length blob < 12 \<longrightarrow> Decrypt gcm K blob = Inl CiphertextTooShort)
     \<and> (open_needs_tag (gcm K) \<and> 12 \<le> length blob \<and> length blob < 12 + 16
          \<longrightarrow> Decrypt gcm K blob = Inl (FailedToOpenGCM ErrOpen))
     \<and> (open_needs_tag (gcm K) \<and> length blob < 12 + 16 \<longrightarrow> isl (Decrypt gcm K blob))"
proof -
  have short: "Decrypt gcm K blob = Inl CiphertextTooShort" if "length blob < 12"
    using that assms by (simp add: Decrypt_def NewCipher_32 cipher_NewGCM_def gcm_standard_sizes_def)
  have tag: "Decrypt gcm K blob = Inl (FailedToOpenGCM ErrOpen)"
    if "open_needs_tag (gcm K)" "12 \<le> length blob" "length blob < 12 + 16"
  proof -
    have "length (drop 12 blob) < Overhead (gcm K)"
      using that assms(1) by (simp add: gcm_standard_sizes_def)
    then have "Open (gcm K) (take 12 blob) (drop 12 blob) [] = Inl ErrOpen"
      using that(1) by (simp add: open_needs_tag_def)
    then show ?thesis
      using that(2) assms
      by (simp add: Decrypt_def NewCipher_32 cipher_NewGCM_def gcm_standard_sizes_def Let_def)
  qed
  have "isl (Decrypt gcm K blob)" if "open_needs_tag (gcm K)" "length blob < 12 + 16"
  proof (cases "length blob < 12")
    case True
    then show ?thesis by (simp add: short)
  next
    case False
    then show ?thesis using that by (simp add: tag)
  qed
  then show ?thesis
    using short tag by blast
qed

text \<open>Witness for C7: blobs of 3, 20 and 27 bytes.\<close>

theorem decrypt_rejects_short_witness:
  "Decrypt toy_gcm zero_key [1, 2, 3] = Inl CiphertextTooShort
   \<and> Decrypt toy_gcm zero_key (replicate 20 7) = Inl (FailedToOpenGCM ErrOpen)
   \<and> isl (Decrypt toy_gcm zero_key (replicate 27 7))"
  using decrypt_rejects_short [where gcm = toy_gcm and K = zero_key and blob = "[1, 2, 3]",
      OF toy_gcm_sizes zero_key_length]
    decrypt_rejects_short [where gcm = toy_gcm and K = zero_key and blob = "replicate 20 7",
      OF toy_gcm_sizes zero_key_length]
    decrypt_rejects_short [where gcm = toy_gcm and K = zero_key and blob = "replicate 27 7",
      OF toy_gcm_sizes zero_key_length]
    toy_gcm_needs_tag [of zero_key]
  by simp

section \<open>Proofs: directories\<close>

subsection \<open>Every goroutine is accounted for\<close>

lemma accounted_initial: "accounted items (initial items)"
  by (simp add: accounted_def initial_def failures_def)

lemma mset_move_returned:
  assumes "it \<in> set fl"
  shows "P + mset (remove1 it fl) + add_mset it D = P + mset fl + D"
proof -
  have "add_mset it (mset (remove1 it fl)) = mset fl"
    using assms by simp
  then have "P + add_mset it (mset (remove1 it fl)) + D = P + mset fl + D"
    by (simp only:)
  then show ?thesis
    by simp
qed

lemma accounted_start:
  assumes "accounted items s" and "pending s = it # rest"
  shows "accounted items (s\<lparr>pending := rest, inflight := it # inflight s\<rparr>)"
  using assms by (simp add: accounted_def)

lemma accounted_return:
  assumes "accounted items s" and "it \<in> set (inflight s)"
  shows "accounted items
           (s\<lparr>inflight := remove1 it (inflight s), finished := (it, r) # finished s,
              logged := log_line it r @ logged s\<rparr>)"
proof -
  let ?t = "s\<lparr>inflight := remove1 it (inflight s), finished := (it, r) # finished s,
              logged := log_line it r @ logged s\<rparr>"
  have a: "mset (pending s) + mset (inflight s) + mset (map fst (finished s)) = mset items"
    and l: "logged s = failures (finished s)"
    using assms(1) by (simp_all add: accounted_def)
  have "mset (pending ?t) + mset (inflight ?t) + mset (map fst (finished ?t))
      = mset (pending s) + mset (remove1 it (inflight s)) + add_mset it (mset (map fst (finished s)))"
    by simp
  also have "\<dots> = mset (pending s) + mset (inflight s) + mset (map fst (finished s))"
    using assms(2) by (rule mset_move_returned)
  also have "\<dots> = mset items"
    by (rule a)
  finally have 1: "mset (pending ?t) + mset (inflight ?t) + mset (map fst (finished ?t)) = mset items" .
  have 2: "logged ?t = failures (finished ?t)"
    using l by (simp add: failures_def)
  show ?thesis
    unfolding accounted_def using 1 2 by (rule conjI)
qed

lemma accounted_step:
  assumes "step W work s t" and "accounted items s"
  shows "accounted items t"
  using assms
proof (induction rule: step.induct)
  case (start s it rest)
  then show ?case by (simp only: accounted_start)
next
  case (return it s E')
  then show ?case by (simp only: accounted_return)
qed

lemma accounted_run:
  assumes "(step W work)\<^sup>*\<^sup>* (initial items) s"
  shows "accounted items s"
  using assms
proof (induction rule: rtranclp_induct)
  case base
  show ?case by (rule accounted_initial)
next
  case (step t u)
  from step.hyps(2) step.IH show ?case by (rule accounted_step)
qed

text \<open>
  What a finished goroutine has kept is what its own call returned, in one of the
  environments of the state in which it returned.
\<close>

lemma own_results:
  assumes "(step W work)\<^sup>*\<^sup>* (initial items) s"
  shows "\<forall>(it, r) \<in> set (finished s).
           \<exists>t E'. (step W work)\<^sup>*\<^sup>* (initial items) t \<and> it \<in> set (inflight t) \<and> E' \<in> W t
                  \<and> r = work E' it"
  using assms
proof (induction rule: rtranclp_induct)
  case base
  show ?case by (simp add: initial_def)
next
  case (step t u)
  from step.hyps(2) show ?case
  proof (cases rule: step.cases)
    case (start it rest)
    then show ?thesis using step.IH by simp
  next
    case (return it E')
    have "\<exists>t' E''. (step W work)\<^sup>*\<^sup>* (initial items) t' \<and> it \<in> set (inflight t') \<and> E'' \<in> W t'
            \<and> work E' it = work E'' it"
      using step.hyps(1) return(2,3) by blast
    then show ?thesis
      using step.IH return(1) by simp
  qed
qed

subsection \<open>Schedules\<close>

text \<open>
  From a state with nothing in flight, starting each goroutine and letting it return
  at once leads to a state in which all have returned, provided a goroutine can
  return in every state.
\<close>

lemma run_to_completion:
  assumes "\<And>s. W s \<noteq> {}" and "inflight s = []"
  shows "\<exists>t. (step W work)\<^sup>*\<^sup>* s t \<and> all_returned t"
  using assms(2)
proof (induction "pending s" arbitrary: s)
  case Nil
  then have "all_returned s" by (simp add: all_returned_def)
  then show ?case by blast
next
  case (Cons it rest)
  let ?s1 = "s\<lparr>pending := rest, inflight := it # inflight s\<rparr>"
  obtain E' where E': "E' \<in> W ?s1"
    using assms(1) [of ?s1] by blast
  let ?s2 = "?s1\<lparr>inflight := remove1 it (inflight ?s1), finished := (it, work E' it) # finished ?s1,
              logged := log_line it (work E' it) @ logged ?s1\<rparr>"
  have 1: "step W work s ?s1"
    using Cons.hyps(2) by (intro step.start) simp
  have "it \<in> set (inflight ?s1)"
    by simp
  then have 2: "step W work ?s1 ?s2"
    using E' by (rule step.return)
  have "rest = pending ?s2" "inflight ?s2 = []"
    using Cons.prems by simp_all
  then obtain t where "(step W work)\<^sup>*\<^sup>* ?s2 t" "all_returned t"
    using Cons.hyps(1) by blast
  then have "(step W work)\<^sup>*\<^sup>* s t"
    using 1 2 by (meson converse_rtranclp_into_rtranclp)
  then show ?case
    using \<open>all_returned t\<close> by blast
qed


lemma one_after_another:
  assumes "\<And>s. E \<in> W s"
  shows "(step W work)\<^sup>*\<^sup>* \<lparr>pending = xs, inflight = [], finished = fin, logged = lg\<rparr>
     \<lparr>pending = [], inflight = [], finished = rev (map (\<lambda>it. (it, work E it)) xs) @ fin,
      logged = failures (rev (map (\<lambda>it. (it, work E it)) xs)) @ lg\<rparr>"
proof (induction xs arbitrary: fin lg)
  case Nil
  show ?case by (simp add: failures_def)
next
  case (Cons it xs)
  let ?s0 = "\<lparr>pending = it # xs, inflight = [], finished = fin, logged = lg\<rparr>"
  let ?s1 = "\<lparr>pending = xs, inflight = [it], finished = fin, logged = lg\<rparr>"
  let ?s2 = "\<lparr>pending = xs, inflight = [], finished = (it, work E it) # fin,
              logged = log_line it (work E it) @ lg\<rparr>"
  have "step W work ?s0 (?s0\<lparr>pending := xs, inflight := it # inflight ?s0\<rparr>)"
    by (intro step.start) simp
  then have 1: "step W work ?s0 ?s1"
    by simp
  have "it \<in> set (inflight ?s1)"
    by simp
  then have "step W work ?s1 (?s1\<lparr>inflight := remove1 it (inflight ?s1),
                          finished := (it, work E it) # finished ?s1,
                          logged := log_line it (work E it) @ logged ?s1\<rparr>)"
    using assms by (rule step.return)
  then have 2: "step W work ?s1 ?s2"
    by simp
  have 3: "(step W work)\<^sup>*\<^sup>* ?s2
     \<lparr>pending = [], inflight = [], finished = rev (map (\<lambda>it. (it, work E it)) xs) @ (it, work E it) # fin,
      logged = failures (rev (map (\<lambda>it. (it, work E it)) xs)) @ log_line it (work E it) @ lg\<rparr>"
    by (rule Cons.IH)
  have "failures (rev (map (\<lambda>it. (it, work E it)) (it # xs))) @ lg
        = failures (rev (map (\<lambda>it. (it, work E it)) xs)) @ log_line it (work E it) @ lg"
    by (simp add: failures_def)
  then show ?case
    using 1 2 3 by (simp add: converse_rtranclp_into_rtranclp)
qed


lemma complete_run_accounts:
  assumes "(step W work)\<^sup>*\<^sup>* (initial items) s" and "all_returned s"
  shows "mset (map fst (finished s)) = mset items \<and> logged s = failures (finished s)"
proof -
  have "accounted items s"
    using assms(1) by (rule accounted_run)
  then show ?thesis
    using assms(2) by (simp add: accounted_def all_returned_def)
qed

lemma complete_run_exists:
  assumes "\<And>s. W s \<noteq> {}"
  shows "\<exists>s. (step W work)\<^sup>*\<^sup>* (initial items) s \<and> all_returned s"
  using assms by (rule run_to_completion) (simp add: initial_def)

subsection \<open>A walk that meets no error lists the tree\<close>

lemma items_of_Nil: "items_of sel [] = []"
  by (simp add: items_of_def)

lemma items_of_Cons: "items_of sel ((path, name) # files) = sel path name @ items_of sel files"
  by (simp add: items_of_def)

lemma items_of_append: "items_of sel (xs @ ys) = items_of sel xs @ items_of sel ys"
  by (simp add: items_of_def)

lemma starts_on_append:
  "starts_on fn sel (xs @ ys) \<longleftrightarrow> starts_on fn sel xs \<and> starts_on fn sel ys"
  by (auto simp add: starts_on_def)

lemma starts_on_single:
  assumes "starts_on fn sel [(path, name)]"
  shows "fn path (Some \<lparr>Name = name, IsDir = False\<rparr>) None st = (None, st @ sel path name)"
  using assms by (simp add: starts_on_def)

lemma walk_lists_tree:
  "skips_below fn inputDir True \<Longrightarrow> readable k \<Longrightarrow> starts_on fn sel (tree_files join path k)
     \<Longrightarrow> walk join fn path k st = (None, st @ items_of sel (tree_files join path k))"
  "skips_below fn inputDir True \<Longrightarrow> \<forall>k \<in> set ks. readable k
     \<Longrightarrow> starts_on fn sel (concat (map (\<lambda>k. tree_files join (join path (node_name k)) k) ks))
     \<Longrightarrow> walk_names join fn path ks st
         = (None, st @ items_of sel (concat (map (\<lambda>k. tree_files join (join path (node_name k)) k) ks)))"
proof (induction join fn path k st and join fn path ks st rule: walk_walk_names.induct)
  case (1 join walkFn path n st)
  then show ?case
    by (simp add: starts_on_single items_of_def)
next
  case (2 join walkFn path n st)
  then show ?case by simp
next
  case (3 join walkFn path n st)
  then show ?case by simp
next
  case (4 join walkFn path n kids st)
  have cb: "walkFn path (Some \<lparr>Name = n, IsDir = True\<rparr>) None st = (None, st)"
    using "4.prems"(1) by (simp add: skips_below_def)
  have "walk_names join walkFn path kids st
        = (None, st @ items_of sel (concat (map (\<lambda>k. tree_files join (join path (node_name k)) k) kids)))"
    using "4.prems" by (intro "4.IH" [OF cb [symmetric] refl]) simp_all
  then show ?case
    by (simp add: cb)
next
  case (5 join walkFn path st)
  show ?case by (simp add: items_of_def)
next
  case (6 join walkFn path k ks st)
  let ?here = "tree_files join (join path (node_name k)) k"
  let ?there = "concat (map (\<lambda>k. tree_files join (join path (node_name k)) k) ks)"
  have s: "starts_on walkFn sel ?here" "starts_on walkFn sel ?there"
    using "6.prems"(3) by (simp_all add: starts_on_append)
  have r: "readable k" "\<forall>k \<in> set ks. readable k"
    using "6.prems"(2) by simp_all
  have a: "walk join walkFn (join path (node_name k)) k st = (None, st @ items_of sel ?here)"
    using "6.prems"(1) r(1) s(1) by (rule "6.IH"(1))
  have b: "walk_names join walkFn path ks (st @ items_of sel ?here)
           = (None, (st @ items_of sel ?here) @ items_of sel ?there)"
    using "6.prems"(1) r(2) s(2) by (rule "6.IH"(2) [OF a [symmetric] refl])
  show ?case
    by (simp add: a b items_of_append)
qed

lemma walk_names_top:
  assumes "skips_below fn inputDir False"
  shows "\<forall>k \<in> set ks. listable k \<Longrightarrow> \<forall>k \<in> set ks. join inputDir (node_name k) \<noteq> inputDir
     \<Longrightarrow> starts_on fn sel (concat (map (entry_file join inputDir) ks))
     \<Longrightarrow> walk_names join fn inputDir ks st
         = (None, st @ items_of sel (concat (map (entry_file join inputDir) ks)))"
proof (induction ks arbitrary: st)
  case Nil
  show ?case by (simp add: items_of_def)
next
  case (Cons k ks)
  have s: "starts_on fn sel (entry_file join inputDir k)"
    "starts_on fn sel (concat (map (entry_file join inputDir) ks))"
    using Cons.prems(3) by (simp_all add: starts_on_append)
  have rest: "walk_names join fn inputDir ks st'
              = (None, st' @ items_of sel (concat (map (entry_file join inputDir) ks)))" for st'
    using Cons.prems(1,2) s(2) by (intro Cons.IH) simp_all
  show ?case
  proof (cases k)
    case (File n)
    have "walk join fn (join inputDir (node_name k)) k st = (None, st @ sel (join inputDir n) n)"
      using s(1) File by (simp add: starts_on_single)
    then show ?thesis
      using File by (simp add: rest items_of_append items_of_Cons items_of_Nil)
  next
    case (Dir n kids)
    have "join inputDir n \<noteq> inputDir"
      using Cons.prems(2) Dir by simp
    then have "fn (join inputDir n) (Some \<lparr>Name = n, IsDir = True\<rparr>) None st = (Some SkipDir, st)"
      using assms by (simp add: skips_below_def)
    then have "walk join fn (join inputDir (node_name k)) k st = (Some SkipDir, st)"
      using Dir by simp
    then show ?thesis
      using Dir by (simp add: rest items_of_Nil)
  next
    case (DirUnreadable n)
    then show ?thesis using Cons.prems(1) by simp
  next
    case (Missing n)
    then show ?thesis using Cons.prems(1) by simp
  qed
qed

lemma Walk_lists:
  assumes skips: "skips_below fn inputDir recursive"
    and rd: "if recursive then readable (lstat_tree E inputDir)
             else readable_top (lstat_tree E inputDir) \<and> entries_leave_root E inputDir"
    and starts: "starts_on fn sel (listed_files E recursive inputDir)"
  shows "Walk E inputDir fn [] = (None, items_of sel (listed_files E recursive inputDir))"
proof (cases recursive)
  case True
  have "walk (filepath_Join E) fn inputDir (lstat_tree E inputDir) []
        = (None, [] @ items_of sel (tree_files (filepath_Join E) inputDir (lstat_tree E inputDir)))"
    using skips rd starts True by (intro walk_lists_tree(1)) (simp_all add: listed_files_def)
  then show ?thesis
    using True by (simp add: Walk_def listed_files_def)
next
  case False
  then have top: "readable_top (lstat_tree E inputDir)" and leave: "entries_leave_root E inputDir"
    using rd by simp_all
  show ?thesis
  proof (cases "lstat_tree E inputDir")
    case (File n)
    then have "fn inputDir (Some \<lparr>Name = n, IsDir = False\<rparr>) None [] = (None, [] @ sel inputDir n)"
      using starts False by (intro starts_on_single) (simp add: listed_files_def)
    then show ?thesis
      using File False by (simp add: Walk_def listed_files_def items_of_Cons items_of_Nil)
  next
    case (Dir n kids)
    have cb: "fn inputDir (Some \<lparr>Name = n, IsDir = True\<rparr>) None [] = (None, [])"
      using skips by (simp add: skips_below_def)
    have "walk_names (filepath_Join E) fn inputDir kids []
          = (None, [] @ items_of sel (concat (map (entry_file (filepath_Join E) inputDir) kids)))"
    proof (rule walk_names_top)
      show "skips_below fn inputDir False" using skips False by simp
      show "\<forall>k \<in> set kids. listable k" using top Dir by (simp add: readable_top_def)
      show "\<forall>k \<in> set kids. filepath_Join E inputDir (node_name k) \<noteq> inputDir"
        using leave Dir by (simp add: entries_leave_root_def)
      show "starts_on fn sel (concat (map (entry_file (filepath_Join E) inputDir) kids))"
        using starts Dir False by (simp add: listed_files_def)
    qed
    then show ?thesis
      using Dir False by (simp add: Walk_def listed_files_def cb)
  next
    case (DirUnreadable n)
    then show ?thesis using top by (simp add: readable_top_def)
  next
    case (Missing n)
    then show ?thesis using top by (simp add: readable_top_def)
  qed
qed

lemma encryptWalkFn_skips:
  "skips_below (encryptWalkFn E inputDir outputDir recursive) inputDir recursive"
  by (simp add: skips_below_def encryptWalkFn_def)

lemma decryptWalkFn_skips:
  "skips_below (decryptWalkFn E inputDir outputDir recursive encryptedExt) inputDir recursive"
  by (simp add: skips_below_def decryptWalkFn_def)

lemma encryptWalkFn_starts:
  assumes "rel_succeeds E inputDir files"
  shows "starts_on (encryptWalkFn E inputDir outputDir recursive) (encrypt_item E inputDir outputDir) files"
  unfolding starts_on_def
proof (intro ballI, clarify)
  fix path name st
  assume "(path, name) \<in> set files"
  then have "\<not> isl (filepath_Rel E inputDir path)"
    using assms by (auto simp add: rel_succeeds_def)
  then obtain relPath where "filepath_Rel E inputDir path = Inr relPath"
    by (cases "filepath_Rel E inputDir path") simp_all
  then show "encryptWalkFn E inputDir outputDir recursive path (Some \<lparr>Name = name, IsDir = False\<rparr>) None st
             = (None, st @ encrypt_item E inputDir outputDir path name)"
    by (simp add: encryptWalkFn_def encrypt_item_def)
qed

lemma decryptWalkFn_starts:
  assumes "rel_succeeds E inputDir files"
  shows "starts_on (decryptWalkFn E inputDir outputDir recursive encryptedExt)
           (decrypt_item E inputDir outputDir encryptedExt) files"
  unfolding starts_on_def
proof (intro ballI, clarify)
  fix path name st
  assume "(path, name) \<in> set files"
  then have "\<not> isl (filepath_Rel E inputDir path)"
    using assms by (auto simp add: rel_succeeds_def)
  then obtain relPath where "filepath_Rel E inputDir path = Inr relPath"
    by (cases "filepath_Rel E inputDir path") simp_all
  then show "decryptWalkFn E inputDir outputDir recursive encryptedExt path
               (Some \<lparr>Name = name, IsDir = False\<rparr>) None st
             = (None, st @ decrypt_item E inputDir outputDir encryptedExt path name)"
    by (simp add: decryptWalkFn_def decrypt_item_def)
qed

lemma encrypt_walk_lists:
  assumes "enumerable E recursive inputDir"
  shows "encryptDirectory_walk E inputDir outputDir recursive
         = (None, items_of (encrypt_item E inputDir outputDir) (listed_files E recursive inputDir))"
  unfolding encryptDirectory_walk_def
proof (rule Walk_lists)
  show "skips_below (encryptWalkFn E inputDir outputDir recursive) inputDir recursive"
    by (rule encryptWalkFn_skips)
  show "if recursive then readable (lstat_tree E inputDir)
        else readable_top (lstat_tree E inputDir) \<and> entries_leave_root E inputDir"
    using assms by (simp add: enumerable_def)
  show "starts_on (encryptWalkFn E inputDir outputDir recursive) (encrypt_item E inputDir outputDir)
          (listed_files E recursive inputDir)"
    using assms by (intro encryptWalkFn_starts) (simp add: enumerable_def)
qed

lemma decrypt_walk_lists:
  assumes "enumerable E recursive inputDir"
  shows "decryptDirectory_walk E inputDir outputDir recursive encryptedExt
         = (None, items_of (decrypt_item E inputDir outputDir encryptedExt)
                    (listed_files E recursive inputDir))"
  unfolding decryptDirectory_walk_def
proof (rule Walk_lists)
  show "skips_below (decryptWalkFn E inputDir outputDir recursive encryptedExt) inputDir recursive"
    by (rule decryptWalkFn_skips)
  show "if recursive then readable (lstat_tree E inputDir)
        else readable_top (lstat_tree E inputDir) \<and> entries_leave_root E inputDir"
    using assms by (simp add: enumerable_def)
  show "starts_on (decryptWalkFn E inputDir outputDir recursive encryptedExt)
          (decrypt_item E inputDir outputDir encryptedExt) (listed_files E recursive inputDir)"
    using assms by (intro decryptWalkFn_starts) (simp add: enumerable_def)
qed

lemma encrypt_items_are_images:
  assumes "rel_succeeds E inputDir files"
  shows "map fst (items_of (encrypt_item E inputDir outputDir) files)
         = map fst (filter (\<lambda>(path, name). isImageFile E path) files)"
  using assms
proof (induction files)
  case Nil
  show ?case by (simp add: items_of_def)
next
  case (Cons f files)
  obtain path name where f: "f = (path, name)"
    by (cases f)
  have "\<not> isl (filepath_Rel E inputDir path)" and rest: "rel_succeeds E inputDir files"
    using Cons.prems f by (simp_all add: rel_succeeds_def)
  then obtain relPath where "filepath_Rel E inputDir path = Inr relPath"
    by (cases "filepath_Rel E inputDir path") simp_all
  then have "map fst (encrypt_item E inputDir outputDir path name)
             = (if isImageFile E path then [path] else [])"
    by (simp add: encrypt_item_def)
  then show ?case
    using Cons.IH [OF rest] f by (simp add: items_of_Cons)
qed

lemma decrypt_items_are_suffixed:
  assumes "rel_succeeds E inputDir files"
  shows "map fst (items_of (decrypt_item E inputDir outputDir encryptedExt) files)
         = map fst (filter (\<lambda>(path, name). suffix encryptedExt name) files)"
  using assms
proof (induction files)
  case Nil
  show ?case by (simp add: items_of_def)
next
  case (Cons f files)
  obtain path name where f: "f = (path, name)"
    by (cases f)
  have "\<not> isl (filepath_Rel E inputDir path)" and rest: "rel_succeeds E inputDir files"
    using Cons.prems f by (simp_all add: rel_succeeds_def)
  then obtain relPath where "filepath_Rel E inputDir path = Inr relPath"
    by (cases "filepath_Rel E inputDir path") simp_all
  then have "map fst (decrypt_item E inputDir outputDir encryptedExt path name)
             = (if suffix encryptedExt name then [path] else [])"
    by (simp add: decrypt_item_def)
  then show ?case
    using Cons.IH [OF rest] f by (simp add: items_of_Cons)
qed

subsection \<open>The concrete directories\<close>


lemma isImageFile_env1: "isImageFile env1 p"
  by (simp add: isImageFile_def env1_def env0_def ToLower_def ToLower_char_def supportedFormats_def)

lemma three_listed:
  assumes "lstat_tree E ''in'' = Dir ''in'' three_files"
    and "filepath_Join E = (\<lambda>dir name. dir @ ''/'' @ name)"
  shows "listed_files E False ''in''
         = [(''in/a.png'', ''a.png''), (''in/b.png'', ''b.png''), (''in/c.png'', ''c.png'')]"
  by (simp add: listed_files_def assms three_files_def)

lemma three_items:
  assumes "\<And>p. isImageFile E p"
    and "filepath_Join E = (\<lambda>dir name. dir @ ''/'' @ name)"
    and "filepath_Rel E = (\<lambda>base targ. Inr (drop (length base + 1) targ))"
  shows "items_of (encrypt_item E ''in'' ''out'')
           [(''in/a.png'', ''a.png''), (''in/b.png'', ''b.png''), (''in/c.png'', ''c.png'')]
         = [(''in/a.png'', ''out/a.png.enc''), (''in/b.png'', ''out/b.png.enc''),
            (''in/c.png'', ''out/c.png.enc'')]"
  by (simp add: items_of_def encrypt_item_def assms EncryptedExtension_def)

lemma three_enumerable:
  assumes "lstat_tree E ''in'' = Dir ''in'' three_files"
    and "filepath_Join E = (\<lambda>dir name. dir @ ''/'' @ name)"
    and "filepath_Rel E = (\<lambda>base targ. Inr (drop (length base + 1) targ))"
  shows "enumerable E False ''in''"
  by (simp add: enumerable_def readable_top_def entries_leave_root_def rel_succeeds_def
      three_listed [OF assms(1,2)] assms three_files_def)


lemma env1_enumerable: "enumerable env1 False ''in''"
  by (rule three_enumerable) (simp_all add: env1_def env0_def)



lemma env1_items:
  "items_of (encrypt_item env1 ''in'' ''out'') (listed_files env1 False ''in'')
   = [(''in/a.png'', ''out/a.png.enc''), (''in/b.png'', ''out/b.png.enc''),
      (''in/c.png'', ''out/c.png.enc'')]"
proof -
  have l: "listed_files env1 False ''in''
         = [(''in/a.png'', ''a.png''), (''in/b.png'', ''b.png''), (''in/c.png'', ''c.png'')]"
    by (rule three_listed) (simp_all add: env1_def env0_def)
  show ?thesis
    unfolding l by (rule three_items) (simp_all add: isImageFile_env1, simp_all add: env1_def env0_def)
qed


lemma toy_nonce: "length zero_nonce = NonceSize (toy_gcm zero_key)"
  by (simp add: toy_gcm_def zero_nonce_def)


lemma encryptFile_env1:
  "error_of (encryptFile env1 toy_gcm p out zero_key False)
   = (if out = ''out/b.png.enc'' then Some (ErrOS ''disk full'') else None)"
proof -
  have e: "Encrypt toy_gcm zero_nonce zero_key [] = Inr (zero_nonce @ Seal (toy_gcm zero_key) zero_nonce [] [])"
    using zero_key_length toy_nonce by (rule Encrypt_ok)
  have "LoadImage env1 p = Inr img_1x1" "ImageToBytes env1 img_1x1 = Inr []"
    "rand_Reader env1 p = zero_nonce" "os_MkdirAll env1 (filepath_Dir env1 out) = None"
    "\<not> os_Stat env1 out"
    "ioutil_WriteFile env1 out bs = (if out = ''out/b.png.enc'' then Some (ErrOS ''disk full'') else None)"
    for bs
    by (simp_all add: LoadImage_def ImageToBytes_def env1_def env0_def)
  then show ?thesis
    by (simp add: encryptFile_def e error_of_def)
qed

lemma env1_run:
  "(step (\<lambda>s. {env1}) (encrypt_work toy_gcm zero_key False))\<^sup>*\<^sup>*
     (initial [(''in/a.png'', ''out/a.png.enc''), (''in/b.png'', ''out/b.png.enc''),
               (''in/c.png'', ''out/c.png.enc'')])
     \<lparr>pending = [], inflight = [],
      finished = [((''in/c.png'', ''out/c.png.enc''), None),
                  ((''in/b.png'', ''out/b.png.enc''), Some (ErrOS ''disk full'')),
                  ((''in/a.png'', ''out/a.png.enc''), None)],
      logged = [(''in/b.png'', ErrOS ''disk full'')]\<rparr>"
  using one_after_another [of env1 "\<lambda>s. {env1}" "encrypt_work toy_gcm zero_key False"
      "[(''in/a.png'', ''out/a.png.enc''), (''in/b.png'', ''out/b.png.enc''),
        (''in/c.png'', ''out/c.png.enc'')]" "[]" "[]"]
  by (simp add: initial_def encrypt_work_def encryptFile_env1 failures_def log_line_def)


text \<open>The directory of encrypted files.\<close>

lemma env2_listed:
  "listed_files env2 False ''in''
   = [(''in/a.png.enc'', ''a.png.enc''), (''in/b.png.enc'', ''b.png.enc''),
      (''in/notes.txt'', ''notes.txt'')]"
  by (simp add: listed_files_def env2_def env0_def encrypted_files_def)

lemma env2_enumerable: "enumerable env2 False ''in''"
  by (simp add: enumerable_def readable_top_def entries_leave_root_def rel_succeeds_def env2_listed)
     (simp add: env2_def env0_def encrypted_files_def)

lemma env2_items:
  "items_of (decrypt_item env2 ''in'' ''out'' ''.enc'') (listed_files env2 False ''in'')
   = [(''in/a.png.enc'', ''out/a.png''), (''in/b.png.enc'', ''out/b.png'')]"
proof -
  have "filepath_Join env2 = (\<lambda>dir name. dir @ ''/'' @ name)"
    "filepath_Rel env2 = (\<lambda>base targ. Inr (drop (length base + 1) targ))"
    by (simp_all add: env2_def env0_def)
  then show ?thesis
    by (simp add: env2_listed items_of_def decrypt_item_def TrimSuffix_def suffix_to_prefix)
qed

lemma Decrypt_good_blob: "Decrypt toy_gcm zero_key good_blob = Inr []"
proof -
  have "Open (toy_gcm zero_key) zero_nonce (Seal (toy_gcm zero_key) zero_nonce [] []) [] = Inr []"
    using toy_gcm_inverse [of zero_key] toy_nonce by (simp add: open_inverts_seal_def)
  then show ?thesis
    unfolding good_blob_def
    using Decrypt_split [where gcm = toy_gcm and K = zero_key, OF zero_key_length toy_nonce]
    by simp
qed

lemma Decrypt_three_bytes: "Decrypt toy_gcm zero_key [1, 2, 3] = Inl CiphertextTooShort"
  using zero_key_length
  by (simp add: Decrypt_def NewCipher_32 cipher_NewGCM_def toy_gcm_def)

lemma decryptFile_env2:
  "error_of (decryptFile env2 toy_gcm p out zero_key False ''png'')
   = (if p = ''in/b.png.enc'' then Some CiphertextTooShort else None)"
proof -
  have "\<not> os_Stat env2 out"
    "ioutil_ReadFile env2 p = (if p = ''in/b.png.enc'' then Inr [1, 2, 3] else Inr good_blob)"
    "BytesToImage env2 [] = Inr img_1x1"
    "os_MkdirAll env2 (filepath_Dir env2 out) = None"
    "os_Create env2 out = None" "png_Encode env2 img_1x1 = Inr []"
    by (simp_all add: BytesToImage_def env2_def env0_def)
  then show ?thesis
    by (simp add: decryptFile_def Decrypt_good_blob Decrypt_three_bytes SaveImage_def ToLower_png
        error_of_def)
qed

lemma env2_run:
  "(step (\<lambda>s. {env2}) (decrypt_work toy_gcm zero_key False ''png''))\<^sup>*\<^sup>*
     (initial [(''in/a.png.enc'', ''out/a.png''), (''in/b.png.enc'', ''out/b.png'')])
     \<lparr>pending = [], inflight = [],
      finished = [((''in/b.png.enc'', ''out/b.png''), Some CiphertextTooShort),
                  ((''in/a.png.enc'', ''out/a.png''), None)],
      logged = [(''in/b.png.enc'', CiphertextTooShort)]\<rparr>"
  using one_after_another [of env2 "\<lambda>s. {env2}" "decrypt_work toy_gcm zero_key False ''png''"
      "[(''in/a.png.enc'', ''out/a.png''), (''in/b.png.enc'', ''out/b.png'')]" "[]" "[]"]
  by (simp add: initial_def decrypt_work_def decryptFile_env2 failures_def log_line_def)




subsection \<open>Failures of single files\<close>

text \<open>
  Claim C8. Let the enumeration of the input directory succeed, and let every
  goroutine find some environment, whichever state it returns in. Then, for
  \<^verbatim>\<open>encryptDirectory\<close> and for \<^verbatim>\<open>decryptDirectory\<close> alike:

  \<^item> the walk returns \<^verbatim>\<open>nil\<close> and starts a goroutine for exactly the qualifying files
    of the tree (all of them when the walk is recursive, those of the input directory
    itself otherwise), in the order of the listings: the files that \<^verbatim>\<open>isImageFile\<close>
    accepts, or the files whose name ends in the encrypted extension;
  \<^item> the function returns, and it returns \<^verbatim>\<open>nil\<close>, under every schedule and whatever the
    calls for the single files return;
  \<^item> when it returns, every qualifying file has been processed exactly once, the
    outcome kept for a file is what the call for that file returned in an environment
    it could find, and the log holds one line for each file whose call failed, with
    the path of that file and its error, and nothing else.
\<close>

theorem batch_failures_are_isolated:
  assumes "enumerable E recursive inputDir" and "\<forall>s. W s \<noteq> {}"
  shows
   "encryptDirectory_walk E inputDir outputDir recursive
      = (None, items_of (encrypt_item E inputDir outputDir) (listed_files E recursive inputDir))
    \<and> map fst (items_of (encrypt_item E inputDir outputDir) (listed_files E recursive inputDir))
      = map fst (filter (\<lambda>(path, name). isImageFile E path) (listed_files E recursive inputDir))
    \<and> (\<exists>s. encryptDirectory_returns W E gcm inputDir outputDir key recursive overwrite None s)
    \<and> (\<forall>err s. encryptDirectory_returns W E gcm inputDir outputDir key recursive overwrite err s \<longrightarrow>
          err = None
          \<and> mset (map fst (finished s))
            = mset (items_of (encrypt_item E inputDir outputDir) (listed_files E recursive inputDir))
          \<and> logged s = failures (finished s)
          \<and> (\<forall>(it, r) \<in> set (finished s).
                \<exists>t E'. (step W (encrypt_work gcm key overwrite))\<^sup>*\<^sup>*
                          (initial (snd (encryptDirectory_walk E inputDir outputDir recursive))) t
                      \<and> it \<in> set (inflight t) \<and> E' \<in> W t
                      \<and> r = error_of (encryptFile E' gcm (fst it) (snd it) key overwrite)))
    \<and> decryptDirectory_walk E inputDir outputDir recursive encryptedExt
      = (None, items_of (decrypt_item E inputDir outputDir encryptedExt)
                 (listed_files E recursive inputDir))
    \<and> map fst (items_of (decrypt_item E inputDir outputDir encryptedExt)
                 (listed_files E recursive inputDir))
      = map fst (filter (\<lambda>(path, name). suffix encryptedExt name) (listed_files E recursive inputDir))
    \<and> (\<exists>s. decryptDirectory_returns W E gcm inputDir outputDir key recursive encryptedExt overwrite
              outputFormat None s)
    \<and> (\<forall>err s. decryptDirectory_returns W E gcm inputDir outputDir key recursive encryptedExt
                 overwrite outputFormat err s \<longrightarrow>
          err = None
          \<and> mset (map fst (finished s))
            = mset (items_of (decrypt_item E inputDir outputDir encryptedExt)
                      (listed_files E recursive inputDir))
          \<and> logged s = failures (finished s)
          \<and> (\<forall>(it, r) \<in> set (finished s).
                \<exists>t E'. (step W (decrypt_work gcm key overwrite outputFormat))\<^sup>*\<^sup>*
                          (initial (snd (decryptDirectory_walk E inputDir outputDir recursive
                                           encryptedExt))) t
                      \<and> it \<in> set (inflight t) \<and> E' \<in> W t
                      \<and> r = error_of (decryptFile E' gcm (fst it) (snd it) key overwrite
                                        outputFormat)))"
proof -
  let ?ew = "encryptDirectory_walk E inputDir outputDir recursive"
  let ?ei = "items_of (encrypt_item E inputDir outputDir) (listed_files E recursive inputDir)"
  let ?dw = "decryptDirectory_walk E inputDir outputDir recursive encryptedExt"
  let ?di = "items_of (decrypt_item E inputDir outputDir encryptedExt)
               (listed_files E recursive inputDir)"
  have rel: "rel_succeeds E inputDir (listed_files E recursive inputDir)"
    using assms(1) by (simp add: enumerable_def)
  have live: "W s \<noteq> {}" for s
    using assms(2) by simp
  have ew: "?ew = (None, ?ei)"
    using assms(1) by (rule encrypt_walk_lists)
  have dw: "?dw = (None, ?di)"
    using assms(1) by (rule decrypt_walk_lists)
  have e_img: "map fst ?ei
      = map fst (filter (\<lambda>(path, name). isImageFile E path) (listed_files E recursive inputDir))"
    using rel by (rule encrypt_items_are_images)
  have d_sfx: "map fst ?di
      = map fst (filter (\<lambda>(path, name). suffix encryptedExt name) (listed_files E recursive inputDir))"
    using rel by (rule decrypt_items_are_suffixed)
  have e_ex: "\<exists>s. encryptDirectory_returns W E gcm inputDir outputDir key recursive overwrite None s"
    using complete_run_exists [of W "encrypt_work gcm key overwrite" ?ei, OF live]
    by (simp add: encryptDirectory_returns_def ew)
  have d_ex: "\<exists>s. decryptDirectory_returns W E gcm inputDir outputDir key recursive encryptedExt
                  overwrite outputFormat None s"
    using complete_run_exists [of W "decrypt_work gcm key overwrite outputFormat" ?di, OF live]
    by (simp add: decryptDirectory_returns_def dw)
  have e_all: "err = None \<and> mset (map fst (finished s)) = mset ?ei
          \<and> logged s = failures (finished s)
          \<and> (\<forall>(it, r) \<in> set (finished s).
                \<exists>t E'. (step W (encrypt_work gcm key overwrite))\<^sup>*\<^sup>* (initial (snd ?ew)) t
                      \<and> it \<in> set (inflight t) \<and> E' \<in> W t
                      \<and> r = error_of (encryptFile E' gcm (fst it) (snd it) key overwrite))"
    if r: "encryptDirectory_returns W E gcm inputDir outputDir key recursive overwrite err s"
    for err s
  proof -
    have run: "(step W (encrypt_work gcm key overwrite))\<^sup>*\<^sup>* (initial ?ei) s"
      and ret: "all_returned s" and err: "err = None"
      using r by (simp_all add: encryptDirectory_returns_def ew)
    have acc: "mset (map fst (finished s)) = mset ?ei \<and> logged s = failures (finished s)"
      using run ret by (rule complete_run_accounts)
    have "\<forall>(it, r) \<in> set (finished s).
            \<exists>t E'. (step W (encrypt_work gcm key overwrite))\<^sup>*\<^sup>* (initial ?ei) t
                  \<and> it \<in> set (inflight t) \<and> E' \<in> W t \<and> r = encrypt_work gcm key overwrite E' it"
      using run by (rule own_results)
    then have "\<forall>(it, r) \<in> set (finished s).
            \<exists>t E'. (step W (encrypt_work gcm key overwrite))\<^sup>*\<^sup>* (initial (snd ?ew)) t
                  \<and> it \<in> set (inflight t) \<and> E' \<in> W t
                  \<and> r = error_of (encryptFile E' gcm (fst it) (snd it) key overwrite)"
      by (simp add: ew encrypt_work_def case_prod_beta)
    then show ?thesis
      using acc err by simp
  qed
  have d_all: "err = None \<and> mset (map fst (finished s)) = mset ?di
          \<and> logged s = failures (finished s)
          \<and> (\<forall>(it, r) \<in> set (finished s).
                \<exists>t E'. (step W (decrypt_work gcm key overwrite outputFormat))\<^sup>*\<^sup>* (initial (snd ?dw)) t
                      \<and> it \<in> set (inflight t) \<and> E' \<in> W t
                      \<and> r = error_of (decryptFile E' gcm (fst it) (snd it) key overwrite outputFormat))"
    if r: "decryptDirectory_returns W E gcm inputDir outputDir key recursive encryptedExt
             overwrite outputFormat err s"
    for err s
  proof -
    have run: "(step W (decrypt_work gcm key overwrite outputFormat))\<^sup>*\<^sup>* (initial ?di) s"
      and ret: "all_returned s" and err: "err = None"
      using r by (simp_all add: decryptDirectory_returns_def dw)
    have acc: "mset (map fst (finished s)) = mset ?di \<and> logged s = failures (finished s)"
      using run ret by (rule complete_run_accounts)
    have "\<forall>(it, r) \<in> set (finished s).
            \<exists>t E'. (step W (decrypt_work gcm key overwrite outputFormat))\<^sup>*\<^sup>* (initial ?di) t
                  \<and> it \<in> set (inflight t) \<and> E' \<in> W t
                  \<and> r = decrypt_work gcm key overwrite outputFormat E' it"
      using run by (rule own_results)
    then have "\<forall>(it, r) \<in> set (finished s).
            \<exists>t E'. (step W (decrypt_work gcm key overwrite outputFormat))\<^sup>*\<^sup>* (initial (snd ?dw)) t
                  \<and> it \<in> set (inflight t) \<and> E' \<in> W t
                  \<and> r = error_of (decryptFile E' gcm (fst it) (snd it) key overwrite outputFormat)"
      by (simp add: dw decrypt_work_def case_prod_beta)
    then show ?thesis
      using acc err by simp
  qed
  from ew e_img e_ex e_all dw d_sfx d_ex d_all show ?thesis
    by blast
qed

text \<open>
  Witness for C8. Encryption: three images, the second of which cannot be written.
  Decryption: two encrypted files, the second of which is cut short, and a text file
  that does not qualify. Each enumeration succeeds and starts the goroutines shown;
  under the schedule that runs one goroutine after another each function returns
  \<^verbatim>\<open>nil\<close> with every file processed and the one failure logged against its file.
\<close>

theorem batch_failures_are_isolated_witness:
  "enumerable env1 False ''in''
   \<and> encryptDirectory_walk env1 ''in'' ''out'' False
     = (None, [(''in/a.png'', ''out/a.png.enc''), (''in/b.png'', ''out/b.png.enc''),
               (''in/c.png'', ''out/c.png.enc'')])
   \<and> encryptDirectory_returns (\<lambda>s. {env1}) env1 toy_gcm ''in'' ''out'' zero_key False False None
       \<lparr>pending = [], inflight = [],
        finished = [((''in/c.png'', ''out/c.png.enc''), None),
                    ((''in/b.png'', ''out/b.png.enc''), Some (ErrOS ''disk full'')),
                    ((''in/a.png'', ''out/a.png.enc''), None)],
        logged = [(''in/b.png'', ErrOS ''disk full'')]\<rparr>
   \<and> enumerable env2 False ''in''
   \<and> decryptDirectory_walk env2 ''in'' ''out'' False ''.enc''
     = (None, [(''in/a.png.enc'', ''out/a.png''), (''in/b.png.enc'', ''out/b.png'')])
   \<and> decryptDirectory_returns (\<lambda>s. {env2}) env2 toy_gcm ''in'' ''out'' zero_key False ''.enc''
       False ''png'' None
       \<lparr>pending = [], inflight = [],
        finished = [((''in/b.png.enc'', ''out/b.png''), Some CiphertextTooShort),
                    ((''in/a.png.enc'', ''out/a.png''), None)],
        logged = [(''in/b.png.enc'', CiphertextTooShort)]\<rparr>"
proof -
  have live: "\<forall>s. (\<lambda>s. {E}) s \<noteq> {}" for E :: env
    by simp
  note enc = batch_failures_are_isolated [where E = env1 and W = "\<lambda>s. {env1}" and recursive = False
      and inputDir = "''in''" and outputDir = "''out''", OF env1_enumerable live]
  note dec = batch_failures_are_isolated [where E = env2 and W = "\<lambda>s. {env2}" and recursive = False
      and inputDir = "''in''" and outputDir = "''out''" and encryptedExt = "''.enc''",
      OF env2_enumerable live]
  have "encryptDirectory_walk env1 ''in'' ''out'' False
     = (None, items_of (encrypt_item env1 ''in'' ''out'') (listed_files env1 False ''in''))"
    using enc by blast
  then have ew: "encryptDirectory_walk env1 ''in'' ''out'' False
     = (None, [(''in/a.png'', ''out/a.png.enc''), (''in/b.png'', ''out/b.png.enc''),
               (''in/c.png'', ''out/c.png.enc'')])"
    by (simp only: env1_items)
  have "decryptDirectory_walk env2 ''in'' ''out'' False ''.enc''
     = (None, items_of (decrypt_item env2 ''in'' ''out'' ''.enc'') (listed_files env2 False ''in''))"
    using dec by blast
  then have dw: "decryptDirectory_walk env2 ''in'' ''out'' False ''.enc''
     = (None, [(''in/a.png.enc'', ''out/a.png''), (''in/b.png.enc'', ''out/b.png'')])"
    by (simp only: env2_items)
  have er: "encryptDirectory_returns (\<lambda>s. {env1}) env1 toy_gcm ''in'' ''out'' zero_key False False None
       \<lparr>pending = [], inflight = [],
        finished = [((''in/c.png'', ''out/c.png.enc''), None),
                    ((''in/b.png'', ''out/b.png.enc''), Some (ErrOS ''disk full'')),
                    ((''in/a.png'', ''out/a.png.enc''), None)],
        logged = [(''in/b.png'', ErrOS ''disk full'')]\<rparr>"
    using env1_run by (simp add: encryptDirectory_returns_def ew all_returned_def)
  have dr: "decryptDirectory_returns (\<lambda>s. {env2}) env2 toy_gcm ''in'' ''out'' zero_key False ''.enc''
       False ''png'' None
       \<lparr>pending = [], inflight = [],
        finished = [((''in/b.png.enc'', ''out/b.png''), Some CiphertextTooShort),
                    ((''in/a.png.enc'', ''out/a.png''), None)],
        logged = [(''in/b.png.enc'', CiphertextTooShort)]\<rparr>"
    using env2_run by (simp add: decryptDirectory_returns_def dw all_returned_def)
  from env1_enumerable ew er env2_enumerable dw dr show ?thesis
    by (intro conjI)
qed

subsection \<open>The number of goroutines\<close>






end
